theory Spec2Isabelle
  imports Main "HOL-Library.Word" "HOL-Library.Multiset" "HOL-Library.Char_ord" "HOL-Library.List_Lexorder"
begin

section \<open>PacmanIST server: the dispatch queue of main.c\<close>

text \<open>
  The server keeps a circular buffer of session records (\<open>session_buffer\<close>, with the
  indices \<open>buffer_in\<close> and \<open>buffer_out\<close>) and two counting semaphores, \<open>sem_empty\<close> and
  \<open>sem_full\<close>. The host task (\<open>main\<close>) is the producer, the worker tasks are the consumers.
  C \<open>int\<close> values are modelled as \<open>int\<close>, semaphore values (unsigned) as \<open>nat\<close>, the
  \<open>int8_t\<close> fields of the wire messages as \<open>8 word\<close>, and \<open>char\<close> arrays as \<open>string\<close>.
\<close>

definition PIPE_NAME_SIZE :: nat where
  "PIPE_NAME_SIZE = 40"

definition OP_CONNECT :: "8 word" where
  "OP_CONNECT = 1"

definition OP_DISCONNECT :: "8 word" where
  "OP_DISCONNECT = 2"

definition OP_MOVE :: "8 word" where
  "OP_MOVE = 3"

definition OP_UPDATE :: "8 word" where
  "OP_UPDATE = 4"

definition NUL :: char where
  "NUL = CHR 0x00"

record connect_req_t =
  op_code :: "8 word"
  req_pipe :: string
  notif_pipe :: string

record connect_resp_t =
  resp_op_code :: "8 word"
  result :: "8 word"

record game_session_t =
  session_req_pipe :: string
  session_notif_pipe :: string

text \<open>
  \<open>strncpy(dst, src, n)\<close>: the characters of \<open>src\<close> before its first NUL, at most \<open>n\<close> of
  them, then NUL padding up to \<open>n\<close> bytes.
\<close>

definition strncpy :: "string \<Rightarrow> nat \<Rightarrow> string" where
  "strncpy src n =
     (let s = takeWhile (\<lambda>c. c \<noteq> NUL) (take n src)
      in s @ replicate (n - length s) NUL)"

text \<open>
  C's \<open>%\<close> truncates towards zero: the remainder has the sign of the dividend. A zero
  divisor is undefined in C; every caller below checks for it first.
\<close>

definition c_rem :: "int \<Rightarrow> int \<Rightarrow> int" where
  "c_rem a b = sgn a * (\<bar>a\<bar> mod \<bar>b\<bar>)"

record server_state =
  session_buffer :: "game_session_t list"
  buffer_size :: int
  buffer_in :: int
  buffer_out :: int
  sem_empty :: nat
  sem_full :: nat

datatype init_error = Alloc_failed | Sem_init_failed

text \<open>
  The start of \<open>main\<close>: \<open>buffer_size = max_games\<close>, \<open>calloc\<close> of the buffer and
  \<open>sem_init\<close> of the two semaphores. For a negative \<open>max_games\<close> the conversion to
  \<open>size_t\<close> gives a count that \<open>calloc\<close> cannot serve, so the allocation fails and the
  process exits; \<open>calloc_ok\<close> and \<open>sem_ok\<close> say whether the system calls succeed otherwise.
  A zeroed record is a pair of all-NUL names.
\<close>

definition zero_session :: game_session_t where
  "zero_session = \<lparr>session_req_pipe = replicate PIPE_NAME_SIZE NUL,
                   session_notif_pipe = replicate PIPE_NAME_SIZE NUL\<rparr>"

definition main_init :: "int \<Rightarrow> bool \<Rightarrow> bool \<Rightarrow> init_error + server_state" where
  "main_init max_games calloc_ok sem_ok =
     (if max_games < 0 \<or> \<not> calloc_ok then Inl Alloc_failed
      else if \<not> sem_ok then Inl Sem_init_failed
      else Inr \<lparr>session_buffer = replicate (nat max_games) zero_session,
                buffer_size = max_games,
                buffer_in = 0,
                buffer_out = 0,
                sem_empty = nat max_games,
                sem_full = 0\<rparr>)"

text \<open>\<open>create_threads\<close> starts one worker per index \<open>0 .. max_games - 1\<close>.\<close>

definition create_threads :: "int \<Rightarrow> int list" where
  "create_threads max_games = map int [0 ..< nat max_games]"

text \<open>
  An operation on the queue either blocks in \<open>sem_wait\<close>, or would fault (an index outside
  the buffer, a remainder by zero), or completes.
\<close>

datatype 'a outcome = Blocks | Faults | Done 'a

definition session_of :: "connect_req_t \<Rightarrow> game_session_t" where
  "session_of req =
     \<lparr>session_req_pipe = strncpy (req_pipe req) PIPE_NAME_SIZE,
      session_notif_pipe = strncpy (notif_pipe req) PIPE_NAME_SIZE\<rparr>"

text \<open>
  The producer side of \<open>main\<close>: \<open>sem_wait(&sem_empty)\<close>, then under \<open>buffer_mutex\<close> the two
  \<open>strncpy\<close> into slot \<open>buffer_in\<close> and the advance of \<open>buffer_in\<close>, then
  \<open>sem_post(&sem_full)\<close>.
\<close>

definition enqueue :: "connect_req_t \<Rightarrow> server_state \<Rightarrow> server_state outcome" where
  "enqueue req s =
     (if sem_empty s = 0 then Blocks
      else
        let s1 = s\<lparr>sem_empty := sem_empty s - 1\<rparr> in
        if buffer_in s1 < 0 \<or> int (length (session_buffer s1)) \<le> buffer_in s1 then Faults
        else
          let s2 = s1\<lparr>session_buffer :=
                        (session_buffer s1)[nat (buffer_in s1) := session_of req]\<rparr> in
          if buffer_size s2 = 0 then Faults
          else
            let s3 = s2\<lparr>buffer_in := c_rem (buffer_in s2 + 1) (buffer_size s2)\<rparr>
            in Done (s3\<lparr>sem_full := sem_full s3 + 1\<rparr>))"

text \<open>
  The consumer side of \<open>worker_task\<close>: \<open>sem_wait(&sem_full)\<close>, then under \<open>buffer_mutex\<close>
  the copy of slot \<open>buffer_out\<close> and the advance of \<open>buffer_out\<close>, then
  \<open>sem_post(&sem_empty)\<close>.
\<close>

definition dequeue :: "server_state \<Rightarrow> (game_session_t \<times> server_state) outcome" where
  "dequeue s =
     (if sem_full s = 0 then Blocks
      else
        let s1 = s\<lparr>sem_full := sem_full s - 1\<rparr> in
        if buffer_out s1 < 0 \<or> int (length (session_buffer s1)) \<le> buffer_out s1 then Faults
        else
          let session = session_buffer s1 ! nat (buffer_out s1) in
          if buffer_size s1 = 0 then Faults
          else
            let s2 = s1\<lparr>buffer_out := c_rem (buffer_out s1 + 1) (buffer_size s1)\<rparr>
            in Done (session, s2\<lparr>sem_empty := sem_empty s2 + 1\<rparr>))"

text \<open>The states reachable from a successful start by completed enqueues and dequeues.\<close>

inductive reachable :: "int \<Rightarrow> server_state \<Rightarrow> bool" for max_games :: int where
  reach_init: "main_init max_games calloc_ok sem_ok = Inr s \<Longrightarrow> reachable max_games s"
| reach_enqueue: "reachable max_games s \<Longrightarrow> enqueue req s = Done s' \<Longrightarrow> reachable max_games s'"
| reach_dequeue: "reachable max_games s \<Longrightarrow> dequeue s = Done (r, s') \<Longrightarrow> reachable max_games s'"

text \<open>
  An interleaving of the host task and the workers, as the order in which their queue
  operations take effect. \<open>run_queue\<close> collects the records handed to the dequeue calls,
  in call order; an operation that would block at its place in the sequence makes the
  sequence impossible (\<open>Blocks\<close>).
\<close>

datatype queue_event = Enqueue connect_req_t | Dequeue

fun run_queue :: "queue_event list \<Rightarrow> server_state \<Rightarrow> (game_session_t list \<times> server_state) outcome" where
  "run_queue [] s = Done ([], s)"
| "run_queue (Enqueue req # evs) s =
     (case enqueue req s of
        Blocks \<Rightarrow> Blocks
      | Faults \<Rightarrow> Faults
      | Done s' \<Rightarrow> run_queue evs s')"
| "run_queue (Dequeue # evs) s =
     (case dequeue s of
        Blocks \<Rightarrow> Blocks
      | Faults \<Rightarrow> Faults
      | Done (r, s') \<Rightarrow>
          (case run_queue evs s' of
             Blocks \<Rightarrow> Blocks
           | Faults \<Rightarrow> Faults
           | Done (rs, s'') \<Rightarrow> Done (r # rs, s'')))"

fun enqueued :: "queue_event list \<Rightarrow> game_session_t list" where
  "enqueued [] = []"
| "enqueued (Enqueue req # evs) = session_of req # enqueued evs"
| "enqueued (Dequeue # evs) = enqueued evs"

fun dequeue_calls :: "queue_event list \<Rightarrow> nat" where
  "dequeue_calls [] = 0"
| "dequeue_calls (Enqueue req # evs) = dequeue_calls evs"
| "dequeue_calls (Dequeue # evs) = Suc (dequeue_calls evs)"

text \<open>The records waiting in the buffer, oldest first: \<open>sem_full\<close> slots from \<open>buffer_out\<close>.\<close>

definition pending :: "server_state \<Rightarrow> game_session_t list" where
  "pending s =
     map (\<lambda>k. session_buffer s ! nat ((buffer_out s + int k) mod buffer_size s))
         [0 ..< sem_full s]"

text \<open>Concrete data for the worked examples.\<close>

definition demo_req :: "string \<Rightarrow> connect_req_t" where
  "demo_req n = \<lparr>op_code = 1, req_pipe = ''/tmp/req_'' @ n, notif_pipe = ''/tmp/notif_'' @ n\<rparr>"

definition demo_events :: "queue_event list" where
  "demo_events = [Enqueue (demo_req ''a''), Enqueue (demo_req ''b''), Dequeue,
                  Enqueue (demo_req ''c''), Dequeue]"

definition demo_state :: server_state where
  "demo_state = \<lparr>session_buffer = replicate 2 zero_session, buffer_size = 2, buffer_in = 0,
                  buffer_out = 0, sem_empty = 2, sem_full = 0\<rparr>"

definition queue_inv :: "server_state \<Rightarrow> bool" where
  "queue_inv s \<longleftrightarrow>
     0 \<le> buffer_size s \<and>
     length (session_buffer s) = nat (buffer_size s) \<and>
     int (sem_full s) + int (sem_empty s) = buffer_size s \<and>
     0 \<le> buffer_in s \<and> 0 \<le> buffer_out s \<and>
     (0 < buffer_size s \<longrightarrow>
        buffer_in s < buffer_size s \<and> buffer_out s < buffer_size s \<and>
        buffer_in s = (buffer_out s + int (sem_full s)) mod buffer_size s)"

section \<open>The level state of board.h and the movement rule of board.c\<close>

text \<open>
  Signed overflow is undefined in C; the model takes the two's complement result of the
  usual compilation and writes the wrap-around out where a value is unbounded: the score,
  the move counter and the linear cell index.
\<close>

definition INT_MAX :: int where
  "INT_MAX = 2147483647"

definition c_int :: "int \<Rightarrow> int" where
  "c_int x = (x + 2147483648) mod 4294967296 - 2147483648"

definition MAX_MOVES :: nat where
  "MAX_MOVES = 20"

definition CONTINUE_PLAY :: int where
  "CONTINUE_PLAY = 0"




definition CREATE_BACKUP :: int where
  "CREATE_BACKUP = 4"

definition REACHED_PORTAL :: int where
  "REACHED_PORTAL = 1"

definition VALID_MOVE :: int where
  "VALID_MOVE = 0"

definition INVALID_MOVE :: int where
  "INVALID_MOVE = - 1"

definition DEAD_PACMAN :: int where
  "DEAD_PACMAN = - 2"

record command_t =
  command :: char
  turns :: int
  turns_left :: int

record pacman_t =
  pos_x :: int
  pos_y :: int
  alive :: int
  points :: int
  passo :: int
  moves :: "command_t list"
  current_move :: int
  n_moves :: int
  waiting :: int
  next_user_move :: char

record board_pos_t =
  content :: char
  has_dot :: int
  has_portal :: int

text \<open>
  \<open>board_t\<close> without the fields that no modelled function reads (the file names, the
  ghost array and the lock object itself; the critical sections are the atomic steps
  of the model).
\<close>

record board_t =
  width :: int
  height :: int
  board :: "board_pos_t list"
  n_pacmans :: int
  pacmans :: "pacman_t list"
  n_ghosts :: int
  tempo :: int
  level_finished :: int
  shutdown :: int

definition toupper :: "char \<Rightarrow> char" where
  "toupper c =
     (let n = (of_char c :: nat)
      in if 97 \<le> n \<and> n \<le> 122 then char_of (n - 32) else c)"

definition get_board_index :: "board_t \<Rightarrow> int \<Rightarrow> int \<Rightarrow> int" where
  "get_board_index b x y = c_int (y * width b + x)"

definition is_valid_position :: "board_t \<Rightarrow> int \<Rightarrow> int \<Rightarrow> bool" where
  "is_valid_position b x y \<longleftrightarrow> (0 \<le> x \<and> x < width b) \<and> (0 \<le> y \<and> y < height b)"

text \<open>
  Array accesses. An index outside the array is undefined behaviour in C; the model
  returns \<open>None\<close> there, and the functions below hand that \<open>None\<close> on.
\<close>

definition cell_at :: "board_t \<Rightarrow> int \<Rightarrow> board_pos_t option" where
  "cell_at b i = (if 0 \<le> i \<and> i < int (length (board b)) then Some (board b ! nat i) else None)"

definition pacman_at :: "board_t \<Rightarrow> int \<Rightarrow> pacman_t option" where
  "pacman_at b i =
     (if 0 \<le> i \<and> i < int (length (pacmans b)) then Some (pacmans b ! nat i) else None)"

definition set_cell :: "board_t \<Rightarrow> int \<Rightarrow> (board_pos_t \<Rightarrow> board_pos_t) \<Rightarrow> board_t" where
  "set_cell b i f = b\<lparr>board := (board b)[nat i := f (board b ! nat i)]\<rparr>"

definition set_pacman :: "board_t \<Rightarrow> int \<Rightarrow> (pacman_t \<Rightarrow> pacman_t) \<Rightarrow> board_t" where
  "set_pacman b i f = b\<lparr>pacmans := (pacmans b)[nat i := f (pacmans b ! nat i)]\<rparr>"

text \<open>
  The \<open>command_t *\<close> that \<open>move_pacman\<close> receives: the address of the caller's local
  command, or of an entry of a pacman's \<open>moves\<close> array inside the board.
\<close>

datatype cmd_ref = Local_cmd command_t | Pacman_move int int

definition read_command :: "board_t \<Rightarrow> cmd_ref \<Rightarrow> command_t option" where
  "read_command b r =
     (case r of
        Local_cmd c \<Rightarrow> Some c
      | Pacman_move p k \<Rightarrow>
          (case pacman_at b p of
             None \<Rightarrow> None
           | Some pac \<Rightarrow>
               if 0 \<le> k \<and> k < int MAX_MOVES \<and> k < int (length (moves pac))
               then Some (moves pac ! nat k) else None))"

definition write_command :: "board_t \<Rightarrow> cmd_ref \<Rightarrow> (command_t \<Rightarrow> command_t) \<Rightarrow> board_t" where
  "write_command b r f =
     (case r of
        Local_cmd c \<Rightarrow> b
      | Pacman_move p k \<Rightarrow>
          set_pacman b p (\<lambda>pac. pac\<lparr>moves := (moves pac)[nat k := f (moves pac ! nat k)]\<rparr>))"

text \<open>\<open>kill_pacman\<close>: blank the pacman's cell and mark it dead.\<close>

definition kill_pacman :: "board_t \<Rightarrow> int \<Rightarrow> board_t option" where
  "kill_pacman b pacman_index =
     (case pacman_at b pacman_index of
        None \<Rightarrow> None
      | Some pac \<Rightarrow>
          let index = c_int (pos_y pac * width b + pos_x pac) in
          (case cell_at b index of
             None \<Rightarrow> None
           | Some _ \<Rightarrow>
               let b1 = set_cell b index (\<lambda>c. c\<lparr>content := CHR '' ''\<rparr>)
               in Some (set_pacman b1 pacman_index (\<lambda>p. p\<lparr>alive := 0\<rparr>))))"

text \<open>
  The part of \<open>move_pacman\<close> after the \<open>switch\<close>, for the four directions: the move counter
  advances, then bounds, portal, wall, ghost and dot are checked in the source's order.
  \<open>b\<close> is the board after \<open>pac->waiting = pac->passo\<close>.
\<close>

definition move_pacman_to :: "board_t \<Rightarrow> int \<Rightarrow> int \<Rightarrow> int \<Rightarrow> (int \<times> board_t) option" where
  "move_pacman_to b pacman_index new_x new_y =
     (case pacman_at b pacman_index of
        None \<Rightarrow> None
      | Some pac \<Rightarrow>
          let b1 = set_pacman b pacman_index (\<lambda>p. p\<lparr>current_move := c_int (current_move p + 1)\<rparr>) in
          if \<not> is_valid_position b1 new_x new_y then Some (INVALID_MOVE, b1)
          else
            let new_index = get_board_index b1 new_x new_y;
                old_index = get_board_index b1 (pos_x pac) (pos_y pac)
            in
            (case cell_at b1 new_index of
               None \<Rightarrow> None
             | Some target \<Rightarrow>
                 if has_portal target \<noteq> 0 then
                   (case cell_at b1 old_index of
                      None \<Rightarrow> None
                    | Some _ \<Rightarrow>
                        let b2 = set_cell b1 old_index (\<lambda>c. c\<lparr>content := CHR '' ''\<rparr>);
                            b3 = set_cell b2 new_index (\<lambda>c. c\<lparr>content := CHR ''C''\<rparr>);
                            b4 = set_pacman b3 pacman_index (\<lambda>p. p\<lparr>pos_x := new_x, pos_y := new_y\<rparr>)
                        in Some (REACHED_PORTAL, b4\<lparr>level_finished := 1\<rparr>))
                 else if content target = CHR ''W'' \<or> content target = CHR ''X'' then
                   Some (INVALID_MOVE, b1)
                 else if content target = CHR ''M'' then
                   (case kill_pacman b1 pacman_index of
                      None \<Rightarrow> None
                    | Some b2 \<Rightarrow> Some (DEAD_PACMAN, b2))
                 else
                   let b2 = (if has_dot target \<noteq> 0
                             then set_cell
                                    (set_pacman b1 pacman_index
                                       (\<lambda>p. p\<lparr>points := c_int (points p + new_index)\<rparr>))
                                    new_index (\<lambda>c. c\<lparr>has_dot := 0\<rparr>)
                             else b1)
                   in
                   (case cell_at b2 old_index of
                      None \<Rightarrow> None
                    | Some _ \<Rightarrow>
                        let b3 = set_cell b2 old_index (\<lambda>c. c\<lparr>content := CHR '' ''\<rparr>);
                            b4 = set_pacman b3 pacman_index (\<lambda>p. p\<lparr>pos_x := new_x, pos_y := new_y\<rparr>);
                            b5 = set_cell b4 new_index (\<lambda>c. c\<lparr>content := CHR ''C''\<rparr>)
                        in Some (VALID_MOVE, b5))))"

text \<open>
  \<open>move_pacman\<close>. \<open>rnd\<close> is the value \<open>rand()\<close> returns when the direction is \<open>R\<close>. The result
  is the return code and the board after the call.
\<close>

definition move_pacman :: "board_t \<Rightarrow> int \<Rightarrow> cmd_ref \<Rightarrow> nat \<Rightarrow> (int \<times> board_t) option" where
  "move_pacman b pacman_index cmd rnd =
     (if pacman_index < 0 then Some (DEAD_PACMAN, b)
      else
        (case pacman_at b pacman_index of
           None \<Rightarrow> None
         | Some pac \<Rightarrow>
             if alive pac = 0 then Some (DEAD_PACMAN, b)
             else if 0 < waiting pac then
               Some (VALID_MOVE, set_pacman b pacman_index (\<lambda>p. p\<lparr>waiting := waiting p - 1\<rparr>))
             else
               let b1 = set_pacman b pacman_index (\<lambda>p. p\<lparr>waiting := passo p\<rparr>) in
               (case read_command b1 cmd of
                  None \<Rightarrow> None
                | Some c \<Rightarrow>
                    let d0 = toupper (command c);
                        direction =
                          (if d0 = CHR ''R''
                           then [CHR ''W'', CHR ''S'', CHR ''A'', CHR ''D''] ! (rnd mod 4)
                           else d0)
                    in
                    if direction = CHR ''W'' then
                      move_pacman_to b1 pacman_index (pos_x pac) (pos_y pac - 1)
                    else if direction = CHR ''S'' then
                      move_pacman_to b1 pacman_index (pos_x pac) (pos_y pac + 1)
                    else if direction = CHR ''A'' then
                      move_pacman_to b1 pacman_index (pos_x pac - 1) (pos_y pac)
                    else if direction = CHR ''D'' then
                      move_pacman_to b1 pacman_index (pos_x pac + 1) (pos_y pac)
                    else if direction = CHR ''T'' then
                      (if turns_left c = 1 then
                         Some (VALID_MOVE,
                               write_command
                                 (set_pacman b1 pacman_index
                                    (\<lambda>p. p\<lparr>current_move := c_int (current_move p + 1)\<rparr>))
                                 cmd (\<lambda>k. k\<lparr>turns_left := turns k\<rparr>))
                       else
                         Some (VALID_MOVE,
                               write_command b1 cmd (\<lambda>k. k\<lparr>turns_left := turns_left k - 1\<rparr>)))
                    else Some (INVALID_MOVE, b1))))"

text \<open>
  The dot flags of the cells, in cell order, and a sequence of calls of \<open>move_pacman\<close>
  (pacman index, command and \<open>rand()\<close> value of each call), stopping at a fault.
\<close>

definition dot_flags :: "board_t \<Rightarrow> int list" where
  "dot_flags b = map has_dot (board b)"

fun pacman_moves :: "(int \<times> cmd_ref \<times> nat) list \<Rightarrow> board_t \<Rightarrow> board_t option" where
  "pacman_moves [] b = Some b"
| "pacman_moves ((i, cmd, rnd) # calls) b =
     (case move_pacman b i cmd rnd of
        None \<Rightarrow> None
      | Some (r, b') \<Rightarrow> pacman_moves calls b')"

text \<open>The dot flags \<open>ds'\<close> have none set that is clear in \<open>ds\<close>.\<close>

definition dots_within :: "int list \<Rightarrow> int list \<Rightarrow> bool" where
  "dots_within ds' ds \<longleftrightarrow>
     length ds' = length ds \<and> (\<forall>k < length ds. ds ! k = 0 \<longrightarrow> ds' ! k = 0)"

section \<open>The session threads of game.c\<close>

record move_req_t =
  op_code :: "8 word"
  key :: char

text \<open>
  One \<open>read(fd, &move, sizeof(move_req_t))\<close> of the command listener: the byte count
  \<open>n\<close> returned (0 at end of file, negative on error) and the contents of \<open>move\<close> after
  the call. \<open>sizeof(move_req_t)\<close> is 2.
\<close>

definition sizeof_move_req_t :: int where
  "sizeof_move_req_t = 2"

record read_result =
  read_n :: int
  read_move :: move_req_t

datatype log_line = Partial_message int | Unknown_opcode "8 word"

datatype listener_step = Listener_continues board_t "log_line list" | Listener_returns board_t | Listener_faults

text \<open>
  The body of the listener's loop after the check of \<open>board->shutdown\<close>, for one read.
  Writing \<open>pacmans[0]\<close> needs the pacman to exist.
\<close>

definition listener_read :: "read_result \<Rightarrow> board_t \<Rightarrow> listener_step" where
  "listener_read r b =
     (if read_n r \<le> 0 then
        (if read_n r = 0 then Listener_returns (b\<lparr>shutdown := 1\<rparr>)
         else Listener_continues b [])
      else if read_n r < sizeof_move_req_t then Listener_continues b [Partial_message (read_n r)]
      else if move_req_t.op_code (read_move r) = OP_MOVE then
        (case pacman_at b 0 of
           None \<Rightarrow> Listener_faults
         | Some _ \<Rightarrow>
             Listener_continues (set_pacman b 0 (\<lambda>p. p\<lparr>next_user_move := key (read_move r)\<rparr>)) [])
      else if move_req_t.op_code (read_move r) = OP_DISCONNECT then
        Listener_returns (b\<lparr>shutdown := 1\<rparr>)
      else Listener_continues b [Unknown_opcode (move_req_t.op_code (read_move r))])"

text \<open>
  \<open>input_listener_thread\<close> over a finite prefix of its run: each element is what the
  other threads did to the board since the last iteration and the outcome of the next
  \<open>read\<close>. The result is how the thread ended (\<open>None\<close> while it is still in its loop), the
  board and the warnings written to \<open>stderr\<close>.
\<close>

datatype thread_end = Returned | Faulted

fun input_listener_thread ::
  "int \<Rightarrow> ((board_t \<Rightarrow> board_t) \<times> read_result) list \<Rightarrow> board_t \<Rightarrow>
     thread_end option \<times> board_t \<times> log_line list" where
  "input_listener_thread fd [] b = ((if fd = - 1 then Some Returned else None), b, [])"
| "input_listener_thread fd ((env, r) # rest) b0 =
     (if fd = - 1 then (Some Returned, b0, [])
      else
        let b = env b0 in
        if shutdown b \<noteq> 0 then (Some Returned, b, [])
        else
          (case listener_read r b of
             Listener_faults \<Rightarrow> (Some Faulted, b, [])
           | Listener_returns b' \<Rightarrow> (Some Returned, b', [])
           | Listener_continues b' ls \<Rightarrow>
               (case input_listener_thread fd rest b' of
                  (e, b'', ls') \<Rightarrow> (e, b'', ls @ ls'))))"

text \<open>
  The critical section of \<open>pacman_thread\<close> that picks the command to play, between
  \<open>pthread_rwlock_wrlock\<close> and \<open>pthread_rwlock_unlock\<close>: the local command \<open>c\<close> starts as
  \<open>{' ', 0, 0}\<close>; the result is what \<open>play\<close> points to, and the board.
\<close>

definition choose_command :: "board_t \<Rightarrow> (cmd_ref \<times> board_t) option" where
  "choose_command b =
     (case pacman_at b 0 of
        None \<Rightarrow> None
      | Some pacman \<Rightarrow>
          if next_user_move pacman \<noteq> CHR '' '' then
            Some (Local_cmd \<lparr>command = next_user_move pacman, turns = 0, turns_left = 0\<rparr>,
                  set_pacman b 0 (\<lambda>p. p\<lparr>next_user_move := CHR '' ''\<rparr>))
          else if 0 < n_moves pacman then
            Some (Pacman_move 0 (c_rem (current_move pacman) (n_moves pacman)), b)
          else Some (Local_cmd \<lparr>command = CHR '' '', turns = 0, turns_left = 0\<rparr>, b))"













text \<open>
  A level for the worked examples: three columns, two rows; walls in row 0; in row 1 the
  pacman at column 0, a dot at column 1 (cell 4) and the portal at column 2 (cell 5).
\<close>

definition demo_pacman :: pacman_t where
  "demo_pacman =
     \<lparr>pos_x = 0, pos_y = 1, alive = 1, points = 0, passo = 0, moves = [], current_move = 0,
      n_moves = 0, waiting = 0, next_user_move = CHR '' ''\<rparr>"

definition demo_board :: board_t where
  "demo_board =
     \<lparr>width = 3, height = 2,
      board = [\<lparr>content = CHR ''X'', has_dot = 0, has_portal = 0\<rparr>,
               \<lparr>content = CHR ''X'', has_dot = 0, has_portal = 0\<rparr>,
               \<lparr>content = CHR ''X'', has_dot = 0, has_portal = 0\<rparr>,
               \<lparr>content = CHR ''C'', has_dot = 0, has_portal = 0\<rparr>,
               \<lparr>content = CHR '' '', has_dot = 1, has_portal = 0\<rparr>,
               \<lparr>content = CHR '' '', has_dot = 0, has_portal = 1\<rparr>],
      n_pacmans = 1, pacmans = [demo_pacman], n_ghosts = 0, tempo = 100,
      level_finished = 0, shutdown = 0\<rparr>"

definition demo_key :: "char \<Rightarrow> cmd_ref" where
  "demo_key k = Local_cmd \<lparr>command = k, turns = 0, turns_left = 0\<rparr>"

text \<open>The board after the pacman has stepped right onto the dot.\<close>

definition demo_board_dot :: board_t where
  "demo_board_dot =
     \<lparr>width = 3, height = 2,
      board = [\<lparr>content = CHR ''X'', has_dot = 0, has_portal = 0\<rparr>,
               \<lparr>content = CHR ''X'', has_dot = 0, has_portal = 0\<rparr>,
               \<lparr>content = CHR ''X'', has_dot = 0, has_portal = 0\<rparr>,
               \<lparr>content = CHR '' '', has_dot = 0, has_portal = 0\<rparr>,
               \<lparr>content = CHR ''C'', has_dot = 0, has_portal = 0\<rparr>,
               \<lparr>content = CHR '' '', has_dot = 0, has_portal = 1\<rparr>],
      n_pacmans = 1,
      pacmans = [demo_pacman\<lparr>pos_x := 1, points := 4, current_move := 1\<rparr>],
      n_ghosts = 0, tempo = 100, level_finished = 0, shutdown = 0\<rparr>"

text \<open>
  A full-size move message with key \<open>k\<close>, the protocol's one-byte disconnect message as a
  \<open>read\<close> returns it, and a cycle in which the listener has stored the key \<open>k\<close> while the
  pacman thread slept and nothing else happened.
\<close>

definition demo_move_read :: "char \<Rightarrow> read_result" where
  "demo_move_read k = \<lparr>read_n = 2, read_move = \<lparr>op_code = OP_MOVE, key = k\<rparr>\<rparr>"

definition demo_disconnect_read :: read_result where
  "demo_disconnect_read = \<lparr>read_n = 1, read_move = \<lparr>op_code = OP_DISCONNECT, key = NUL\<rparr>\<rparr>"





text \<open>
  A cycle in which the client closes its pipe while the pacman thread sleeps (the listener
  reads 0 bytes), and a cycle that starts after a ghost has killed the pacman.
\<close>

definition demo_eof_read :: read_result where
  "demo_eof_read = \<lparr>read_n = 0, read_move = \<lparr>op_code = 0, key = NUL\<rparr>\<rparr>"




section \<open>The host task, the score report and the level list of main.c\<close>

text \<open>
  One \<open>read(fifo_fd, &req, sizeof(connect_req_t))\<close> of the host task: the byte count and
  the contents of \<open>req\<close> (\<open>fifo_req\<close>). \<open>sizeof(connect_req_t)\<close> is 81.
\<close>

definition sizeof_connect_req_t :: int where
  "sizeof_connect_req_t = 81"

record fifo_read =
  bytes_read :: int
  fifo_req :: connect_req_t

datatype host_action =
    Open_client string
  | Write_client connect_resp_t
  | Close_client
  | Enqueue_session connect_req_t

datatype host_step = Host_break | Host_continue "host_action list"

text \<open>
  One iteration of the \<open>while (1)\<close> loop of \<open>main\<close>. \<open>open_ok\<close> says whether
  \<open>open(req.notif_pipe, O_WRONLY)\<close> succeeds. The actions are what the iteration does, in
  order; \<open>Enqueue_session\<close> is the producer code modelled by \<open>enqueue\<close>.
\<close>

definition host_iteration :: "fifo_read \<Rightarrow> bool \<Rightarrow> host_step" where
  "host_iteration rd open_ok =
     (if bytes_read rd = 0 then Host_break
      else if bytes_read rd = - 1 then Host_break
      else if bytes_read rd \<noteq> sizeof_connect_req_t then Host_continue []
      else if connect_req_t.op_code (fifo_req rd) = OP_CONNECT then
        (if \<not> open_ok then Host_continue [Open_client (notif_pipe (fifo_req rd))]
         else Host_continue
                [Open_client (notif_pipe (fifo_req rd)),
                 Write_client \<lparr>resp_op_code = OP_CONNECT, result = 0\<rparr>,
                 Close_client,
                 Enqueue_session (fifo_req rd)])
      else Host_continue [])"

definition host_actions :: "host_step \<Rightarrow> host_action list" where
  "host_actions st = (case st of Host_break \<Rightarrow> [] | Host_continue acts \<Rightarrow> acts)"

text \<open>The loop of \<open>main\<close> over the reads of a run, up to the first \<open>break\<close>.\<close>

fun host_task :: "(fifo_read \<times> bool) list \<Rightarrow> host_action list" where
  "host_task [] = []"
| "host_task ((rd, open_ok) # rest) =
     (case host_iteration rd open_ok of
        Host_break \<Rightarrow> []
      | Host_continue acts \<Rightarrow> acts @ host_task rest)"

text \<open>The bytes of a connect response on the wire.\<close>

definition encode_connect_resp :: "connect_resp_t \<Rightarrow> 8 word list" where
  "encode_connect_resp r = [resp_op_code r, result r]"

subsection \<open>The score board and the report of \<open>handle_sigusr1\<close>\<close>














subsection \<open>The level files of a session\<close>

text \<open>
  C strings are modelled by their characters before the terminating NUL. \<open>strcmp\<close>
  compares them as unsigned bytes; only the sign of its result is specified.
\<close>

fun strcmp :: "string \<Rightarrow> string \<Rightarrow> int" where
  "strcmp [] [] = 0"
| "strcmp [] (y # ys) = - int (of_char y)"
| "strcmp (x # xs) [] = int (of_char x)"
| "strcmp (x # xs) (y # ys) =
     (if x = y then strcmp xs ys else int (of_char x) - int (of_char y))"



text \<open>
  A \<open>char\<close> array read as a C string: its characters before the first NUL. \<open>strstr\<close> on
  \<open>d_name\<close> and the \<open>%s\<close> of \<open>snprintf\<close> read their arguments so.
\<close>

definition c_string :: "string \<Rightarrow> string" where
  "c_string s = takeWhile (\<lambda>c. c \<noteq> NUL) s"


text \<open>\<open>snprintf(level_files[k], 512, "%s/%s", dir, d_name)\<close> keeps at most 511 characters.\<close>

definition level_path :: "string \<Rightarrow> string \<Rightarrow> string" where
  "level_path levels_dir d_name = take 511 (c_string levels_dir @ ''/'' @ c_string d_name)"


text \<open>
  \<open>sort_level_files\<close>: for each \<open>i\<close>, every later \<open>j\<close> with a smaller path is swapped into
  place \<open>i\<close>. The paths are shorter than the 512 bytes that \<open>strncpy\<close> copies, so a swap
  exchanges them whole.
\<close>

function sort_inner :: "nat \<Rightarrow> nat \<Rightarrow> nat \<Rightarrow> string list \<Rightarrow> string list" where
  "sort_inner i j cnt files =
     (if j < cnt then
        sort_inner i (j + 1) cnt
          (if 0 < strcmp (files ! i) (files ! j)
           then files[i := files ! j, j := files ! i]
           else files)
      else files)"
  by pat_completeness auto
termination
  by (relation "measure (\<lambda>(i, j, cnt, files). cnt - j)") auto

function sort_outer :: "nat \<Rightarrow> nat \<Rightarrow> string list \<Rightarrow> string list" where
  "sort_outer i cnt files =
     (if i + 1 < cnt then sort_outer (i + 1) cnt (sort_inner i (i + 1) cnt files)
      else files)"
  by pat_completeness auto
termination
  by (relation "measure (\<lambda>(i, cnt, files). cnt - i)") auto

declare sort_inner.simps [simp del] sort_outer.simps [simp del]





text \<open>Concrete data for the worked examples: a connect request as read from the FIFO.\<close>

definition demo_fifo_read :: fifo_read where
  "demo_fifo_read = \<lparr>bytes_read = 81, fifo_req = demo_req ''a''\<rparr>"







section \<open>The dispatch queue, one semaphore operation at a time\<close>

text \<open>
  The host task and the workers between the statements of their queue code. The host is
  outside the queue code, or has passed \<open>sem_wait(&sem_empty)\<close> for a request, or has left
  the critical section and is before \<open>sem_post(&sem_full)\<close>. A worker is before
  \<open>sem_wait(&sem_full)\<close>, or has passed it, or has left the critical section with its copy
  of a session and is before \<open>sem_post(&sem_empty)\<close>. The critical sections are single steps:
  \<open>buffer_mutex\<close> lets one thread at a time between its lock and unlock, and nothing else
  reads or writes the buffer and its indices.
\<close>

datatype host_pc = Host_idle | Host_has_slot connect_req_t | Host_wrote

datatype worker_pc = Worker_idle | Worker_has_item | Worker_took game_session_t

record pool_state =
  globals :: server_state
  host :: host_pc
  workers :: "worker_pc list"

datatype queue_step =
    Host_sem_wait connect_req_t
  | Host_critical
  | Host_sem_post
  | Worker_sem_wait nat
  | Worker_critical nat
  | Worker_sem_post nat

text \<open>
  One step of one thread. \<open>Blocks\<close>: the thread is not at that statement, or waits in
  \<open>sem_wait\<close>. The result holds the session a worker has copied out, if the step is one.
\<close>

definition pool_step :: "queue_step \<Rightarrow> pool_state \<Rightarrow> (game_session_t option \<times> pool_state) outcome" where
  "pool_step ev st =
     (let s = globals st in
      case ev of
        Host_sem_wait rq \<Rightarrow>
          if host st = Host_idle \<and> sem_empty s \<noteq> 0
          then Done (None, st\<lparr>globals := s\<lparr>sem_empty := sem_empty s - 1\<rparr>, host := Host_has_slot rq\<rparr>)
          else Blocks
      | Host_critical \<Rightarrow>
          (case host st of
             Host_has_slot rq \<Rightarrow>
               if buffer_in s < 0 \<or> int (length (session_buffer s)) \<le> buffer_in s then Faults
               else if buffer_size s = 0 then Faults
               else Done (None,
                      st\<lparr>globals :=
                           s\<lparr>session_buffer := (session_buffer s)[nat (buffer_in s) := session_of rq],
                             buffer_in := c_rem (buffer_in s + 1) (buffer_size s)\<rparr>,
                         host := Host_wrote\<rparr>)
           | _ \<Rightarrow> Blocks)
      | Host_sem_post \<Rightarrow>
          if host st = Host_wrote
          then Done (None, st\<lparr>globals := s\<lparr>sem_full := sem_full s + 1\<rparr>, host := Host_idle\<rparr>)
          else Blocks
      | Worker_sem_wait w \<Rightarrow>
          if w < length (workers st) \<and> workers st ! w = Worker_idle \<and> sem_full s \<noteq> 0
          then Done (None, st\<lparr>globals := s\<lparr>sem_full := sem_full s - 1\<rparr>,
                              workers := (workers st)[w := Worker_has_item]\<rparr>)
          else Blocks
      | Worker_critical w \<Rightarrow>
          if w < length (workers st) \<and> workers st ! w = Worker_has_item then
            (if buffer_out s < 0 \<or> int (length (session_buffer s)) \<le> buffer_out s then Faults
             else if buffer_size s = 0 then Faults
             else Done (Some (session_buffer s ! nat (buffer_out s)),
                    st\<lparr>globals := s\<lparr>buffer_out := c_rem (buffer_out s + 1) (buffer_size s)\<rparr>,
                       workers := (workers st)[w := Worker_took (session_buffer s ! nat (buffer_out s))]\<rparr>))
          else Blocks
      | Worker_sem_post w \<Rightarrow>
          if w < length (workers st) then
            (case workers st ! w of
               Worker_took r \<Rightarrow>
                 Done (None, st\<lparr>globals := s\<lparr>sem_empty := sem_empty s + 1\<rparr>,
                                workers := (workers st)[w := Worker_idle]\<rparr>)
             | _ \<Rightarrow> Blocks)
          else Blocks)"

text \<open>
  A run of the threads, one step at a time: the records the host has written into the
  buffer and the records the workers have copied out, each in the order of the critical
  sections, and the state at the end.
\<close>

fun pool_run ::
  "queue_step list \<Rightarrow> pool_state \<Rightarrow>
     (game_session_t list \<times> game_session_t list \<times> pool_state) outcome" where
  "pool_run [] st = Done ([], [], st)"
| "pool_run (ev # evs) st =
     (case pool_step ev st of
        Blocks \<Rightarrow> Blocks
      | Faults \<Rightarrow> Faults
      | Done (r, st') \<Rightarrow>
          (case pool_run evs st' of
             Blocks \<Rightarrow> Blocks
           | Faults \<Rightarrow> Faults
           | Done (written, taken, st'') \<Rightarrow>
               Done ((case (ev, host st) of
                        (Host_critical, Host_has_slot rq) \<Rightarrow> session_of rq # written
                      | _ \<Rightarrow> written),
                     (case r of Some x \<Rightarrow> x # taken | None \<Rightarrow> taken),
                     st'')))"

text \<open>The server after \<open>main\<close> has started the workers.\<close>

definition pool_init :: "int \<Rightarrow> bool \<Rightarrow> bool \<Rightarrow> init_error + pool_state" where
  "pool_init max_games calloc_ok sem_ok =
     (case main_init max_games calloc_ok sem_ok of
        Inl e \<Rightarrow> Inl e
      | Inr s \<Rightarrow>
          Inr \<lparr>globals = s, host = Host_idle,
               workers = map (\<lambda>i. Worker_idle) (create_threads max_games)\<rparr>)"

text \<open>
  The permits in the hands of the threads, the number of records in the buffer, and
  the invariant of the steps.
\<close>

definition host_permits :: "host_pc \<Rightarrow> nat" where
  "host_permits h = (if h = Host_idle then 0 else 1)"

definition worker_permits :: "worker_pc list \<Rightarrow> nat" where
  "worker_permits ws = length (filter (\<lambda>w. w \<noteq> Worker_idle) ws)"

definition records_in_buffer :: "pool_state \<Rightarrow> nat" where
  "records_in_buffer st =
     sem_full (globals st) + (if host st = Host_wrote then 1 else 0)
     + length (filter (\<lambda>w. w = Worker_has_item) (workers st))"

definition pool_pending :: "pool_state \<Rightarrow> game_session_t list" where
  "pool_pending st =
     map (\<lambda>k. session_buffer (globals st)
                ! nat ((buffer_out (globals st) + int k) mod buffer_size (globals st)))
         [0 ..< records_in_buffer st]"

definition pool_inv :: "pool_state \<Rightarrow> bool" where
  "pool_inv st \<longleftrightarrow>
     (let s = globals st in
      0 \<le> buffer_size s \<and>
      length (session_buffer s) = nat (buffer_size s) \<and>
      int (sem_empty s) + int (sem_full s) + int (host_permits (host st))
        + int (worker_permits (workers st)) = buffer_size s \<and>
      0 \<le> buffer_in s \<and> 0 \<le> buffer_out s \<and>
      (0 < buffer_size s \<longrightarrow>
         buffer_in s < buffer_size s \<and> buffer_out s < buffer_size s \<and>
         buffer_in s = (buffer_out s + int (records_in_buffer st)) mod buffer_size s))"

text \<open>A run for the worked examples: the host enqueues two requests while worker 1 and
  then worker 0 take them, the steps interleaved.\<close>

definition demo_steps :: "queue_step list" where
  "demo_steps =
     [Host_sem_wait (demo_req ''a''), Host_critical, Host_sem_post,
      Worker_sem_wait 1, Host_sem_wait (demo_req ''b''), Worker_critical 1, Host_critical,
      Host_sem_post, Worker_sem_wait 0, Worker_sem_post 1, Worker_critical 0, Worker_sem_post 0]"

section \<open>The dispatch queue: invariant and FIFO delivery\<close>

lemma mod_slot_neq:
  fixes out cap :: int
  assumes "0 < cap" "k < f" "int f < cap"
  shows "(out + int k) mod cap \<noteq> (out + int f) mod cap"
proof
  assume "(out + int k) mod cap = (out + int f) mod cap"
  then have "cap dvd (out + int f) - (out + int k)"
    by (metis mod_eq_dvd_iff)
  then have "cap dvd int f - int k" by simp
  moreover have "0 < int f - int k" "int f - int k < cap" using assms by auto
  ultimately show False using zdvd_not_zless by blast
qed

lemma c_rem_nonneg: "0 \<le> a \<Longrightarrow> 0 < b \<Longrightarrow> c_rem a b = a mod b"
  by (cases "a = 0") (simp_all add: c_rem_def)

lemma main_init_inv:
  assumes "main_init max_games calloc_ok sem_ok = Inr s"
  shows "queue_inv s \<and> pending s = [] \<and> buffer_size s = max_games"
  using assms
  by (auto simp: main_init_def queue_inv_def pending_def split: if_splits)

lemma queue_inv_positive:
  assumes "queue_inv s" "sem_empty s \<noteq> 0 \<or> sem_full s \<noteq> 0"
  shows "0 < buffer_size s" "0 \<le> buffer_in s" "buffer_in s < buffer_size s"
    "0 \<le> buffer_out s" "buffer_out s < buffer_size s"
    "length (session_buffer s) = nat (buffer_size s)"
    "buffer_in s = (buffer_out s + int (sem_full s)) mod buffer_size s"
proof -
  from assms show cap: "0 < buffer_size s" unfolding queue_inv_def by linarith
  with assms(1) show "0 \<le> buffer_in s" "buffer_in s < buffer_size s"
    "0 \<le> buffer_out s" "buffer_out s < buffer_size s"
    "length (session_buffer s) = nat (buffer_size s)"
    "buffer_in s = (buffer_out s + int (sem_full s)) mod buffer_size s"
    unfolding queue_inv_def by blast+
qed

lemma enqueue_no_fault:
  assumes "queue_inv s"
  shows "enqueue req s \<noteq> Faults"
proof (cases "sem_empty s = 0")
  case True
  then show ?thesis by (simp add: enqueue_def)
next
  case False
  with queue_inv_positive(1,2,3,6)[OF assms] show ?thesis
    by (simp add: enqueue_def Let_def)
qed

lemma dequeue_no_fault:
  assumes "queue_inv s"
  shows "dequeue s \<noteq> Faults"
proof (cases "sem_full s = 0")
  case True
  then show ?thesis by (simp add: dequeue_def)
next
  case False
  with queue_inv_positive(1,4,5,6)[OF assms] show ?thesis
    by (simp add: dequeue_def Let_def)
qed

lemma enqueue_inv:
  assumes "queue_inv s" "enqueue req s = Done s'"
  shows "queue_inv s'" "pending s' = pending s @ [session_of req]" "buffer_size s' = buffer_size s"
proof -
  from assms(2) have e: "sem_empty s \<noteq> 0"
    by (auto simp: enqueue_def split: if_splits)
  with assms(1) have cap: "0 < buffer_size s" and f: "int (sem_full s) < buffer_size s"
    by (auto simp: queue_inv_def)
  from assms(1) cap have bin: "0 \<le> buffer_in s" "buffer_in s < buffer_size s"
    and len: "length (session_buffer s) = nat (buffer_size s)"
    and rel: "buffer_in s = (buffer_out s + int (sem_full s)) mod buffer_size s"
    by (auto simp: queue_inv_def)
  from assms(2) e bin len cap have s': "s' = s\<lparr>sem_empty := sem_empty s - 1,
      session_buffer := (session_buffer s)[nat (buffer_in s) := session_of req],
      buffer_in := (buffer_in s + 1) mod buffer_size s,
      sem_full := sem_full s + 1\<rparr>"
    by (auto simp: enqueue_def Let_def c_rem_nonneg split: if_splits)
  show "buffer_size s' = buffer_size s" by (simp add: s')
  show "queue_inv s'"
    using assms(1) e cap rel
    by (auto simp: s' queue_inv_def mod_simps ac_simps)
  have old: "(session_buffer s)[nat (buffer_in s) := session_of req] ! nat ((buffer_out s + int k) mod buffer_size s)
      = session_buffer s ! nat ((buffer_out s + int k) mod buffer_size s)" if "k < sem_full s" for k
  proof -
    have "(buffer_out s + int k) mod buffer_size s \<noteq> buffer_in s"
      using mod_slot_neq[OF cap that f] rel by simp
    moreover have "0 \<le> (buffer_out s + int k) mod buffer_size s" using cap by simp
    ultimately have "nat ((buffer_out s + int k) mod buffer_size s) \<noteq> nat (buffer_in s)"
      using bin(1) by (simp only: eq_nat_nat_iff not_False_eq_True)
    then show ?thesis by simp
  qed
  have new: "(session_buffer s)[nat (buffer_in s) := session_of req] ! nat ((buffer_out s + int (sem_full s)) mod buffer_size s)
      = session_of req"
    using rel bin len by auto
  show "pending s' = pending s @ [session_of req]"
    using old new by (simp add: s' pending_def)
qed

lemma dequeue_inv:
  assumes "queue_inv s" "dequeue s = Done (r, s')"
  shows "queue_inv s'" "pending s = r # pending s'" "buffer_size s' = buffer_size s"
proof -
  from assms(2) have f: "sem_full s \<noteq> 0"
    by (auto simp: dequeue_def split: if_splits)
  with assms(1) have cap: "0 < buffer_size s"
    by (auto simp: queue_inv_def)
  from assms(1) cap have bout: "0 \<le> buffer_out s" "buffer_out s < buffer_size s"
    and len: "length (session_buffer s) = nat (buffer_size s)"
    and rel: "buffer_in s = (buffer_out s + int (sem_full s)) mod buffer_size s"
    by (auto simp: queue_inv_def)
  from assms(2) f bout len cap have s': "s' = s\<lparr>sem_full := sem_full s - 1,
      buffer_out := (buffer_out s + 1) mod buffer_size s,
      sem_empty := sem_empty s + 1\<rparr>" and r: "r = session_buffer s ! nat (buffer_out s)"
    by (auto simp: dequeue_def Let_def c_rem_nonneg split: if_splits)
  show "buffer_size s' = buffer_size s" by (simp add: s')
  obtain n where n: "sem_full s = Suc n" using f by (cases "sem_full s") auto
  show "queue_inv s'"
    using assms(1) cap rel n
    by (auto simp: s' queue_inv_def mod_simps add.assoc add.commute add.left_commute)
  have "[0..<Suc n] = 0 # map Suc [0..<n]"
    by (simp add: upt_conv_Cons map_Suc_upt del: upt_Suc)
  then show "pending s = r # pending s'"
    using bout by (simp add: s' r pending_def n mod_simps add.assoc o_def del: upt_Suc)
qed

lemma reachable_inv:
  "reachable max_games s \<Longrightarrow> queue_inv s \<and> buffer_size s = max_games"
proof (induction rule: reachable.induct)
  case (reach_init calloc_ok sem_ok s)
  then show ?case using main_init_inv by blast
next
  case (reach_enqueue s req s')
  then show ?case using enqueue_inv(1,3) by metis
next
  case (reach_dequeue s r s')
  then show ?case using dequeue_inv(1,3) by metis
qed

text \<open>
  Claim C1. In every state reachable from a successful start of \<open>main\<close> by completed
  enqueue and dequeue operations, the occupied slots (the value of \<open>sem_full\<close>, which is
  also the number of records waiting in the buffer) and the free slots (the value of
  \<open>sem_empty\<close>) add up to the capacity \<open>buffer_size\<close>, the occupied count lies between 0
  and the capacity, and the capacity is \<open>max_games\<close>, the number of workers that
  \<open>create_threads\<close> starts.
\<close>

theorem dispatch_queue_capacity:
  assumes "reachable max_games s"
  shows "int (sem_full s) + int (sem_empty s) = buffer_size s \<and>
         0 \<le> int (sem_full s) \<and> int (sem_full s) \<le> buffer_size s \<and>
         length (pending s) = sem_full s \<and>
         buffer_size s = max_games \<and>
         buffer_size s = int (length (create_threads max_games))"
proof -
  from reachable_inv[OF assms] have inv: "queue_inv s" and cap: "buffer_size s = max_games"
    by simp_all
  from inv have sum: "int (sem_full s) + int (sem_empty s) = buffer_size s"
    and nonneg: "0 \<le> buffer_size s"
    by (simp_all add: queue_inv_def)
  have "int (sem_full s) \<le> buffer_size s" using sum by linarith
  moreover have "length (pending s) = sem_full s" by (simp add: pending_def)
  moreover have "buffer_size s = int (length (create_threads max_games))"
    using cap nonneg by (simp add: create_threads_def)
  ultimately show ?thesis using sum cap by simp
qed

lemma run_queue_pending:
  "queue_inv s \<Longrightarrow> run_queue evs s = Done (outs, s') \<Longrightarrow>
     pending s @ enqueued evs = outs @ pending s' \<and> length outs = dequeue_calls evs \<and> queue_inv s'"
proof (induction evs s arbitrary: outs rule: run_queue.induct)
  case (1 s)
  then show ?case by simp
next
  case (2 req evs s)
  from "2.prems"(2) obtain s1 where e: "enqueue req s = Done s1" and r: "run_queue evs s1 = Done (outs, s')"
    by (auto split: outcome.splits)
  from enqueue_inv[OF "2.prems"(1) e] have i1: "queue_inv s1" and p1: "pending s1 = pending s @ [session_of req]"
    by simp_all
  from "2.IH"[OF e i1 r] show ?case by (simp add: p1)
next
  case (3 evs s)
  from "3.prems"(2) obtain r s1 rs where d: "dequeue s = Done (r, s1)"
    and rr: "run_queue evs s1 = Done (rs, s')" and o: "outs = r # rs"
    by (auto split: outcome.splits prod.splits)
  from dequeue_inv[OF "3.prems"(1) d] have i1: "queue_inv s1" and p1: "pending s = r # pending s1"
    by simp_all
  from "3.IH"[OF d refl i1 rr] show ?case by (simp add: p1 o)
qed

lemma run_queue_no_fault:
  "queue_inv s \<Longrightarrow> run_queue evs s \<noteq> Faults"
proof (induction evs s rule: run_queue.induct)
  case (1 s)
  then show ?case by simp
next
  case (2 req evs s)
  show ?case
  proof (cases "enqueue req s")
    case Blocks
    then show ?thesis by simp
  next
    case Faults
    then show ?thesis using enqueue_no_fault[OF "2.prems"] by simp
  next
    case (Done s1)
    with 2 enqueue_inv(1) show ?thesis by simp
  qed
next
  case (3 evs s)
  show ?case
  proof (cases "dequeue s")
    case Blocks
    then show ?thesis by simp
  next
    case Faults
    then show ?thesis using dequeue_no_fault[OF "3.prems"] by simp
  next
    case (Done p)
    obtain r s1 where p: "p = (r, s1)" by (cases p)
    from dequeue_inv(1)[OF "3.prems"] Done p have "queue_inv s1" by simp
    from "3.IH"[OF Done[unfolded p] refl this] show ?thesis
      using Done p by (auto split: outcome.splits)
  qed
qed

text \<open>
  Claim C2. For every interleaving of enqueues and dequeues that the semaphores allow
  from a fresh queue, each dequeue call delivers one record, the number of delivered
  records never exceeds the number of enqueued ones, the records come out in the order
  of their enqueues (the \<open>i\<close>-th dequeue call receives the record of the \<open>i\<close>-th
  enqueue), and so two different dequeue calls never receive the record of one enqueue.
\<close>

theorem dispatch_queue_fifo:
  assumes "main_init max_games calloc_ok sem_ok = Inr s0"
    and "run_queue evs s0 = Done (outs, s)"
  shows "length outs = dequeue_calls evs \<and>
         dequeue_calls evs \<le> length (enqueued evs) \<and>
         outs = take (dequeue_calls evs) (enqueued evs) \<and>
         (\<forall>i j. i < j \<and> j < length outs \<and> distinct (enqueued evs) \<longrightarrow> outs ! i \<noteq> outs ! j)"
proof -
  from main_init_inv[OF assms(1)] have inv: "queue_inv s0" and emp: "pending s0 = []"
    by simp_all
  from run_queue_pending[OF inv assms(2)] emp
  have eq: "enqueued evs = outs @ pending s" and len: "length outs = dequeue_calls evs"
    by simp_all
  have le: "dequeue_calls evs \<le> length (enqueued evs)"
    using len by (simp add: eq)
  have tk: "outs = take (dequeue_calls evs) (enqueued evs)"
    using len by (simp add: eq)
  have "outs ! i \<noteq> outs ! j" if "i < j" "j < length outs" "distinct (enqueued evs)" for i j
  proof -
    from that(3) have "distinct outs" by (simp add: eq)
    with that(1,2) show ?thesis by (simp add: nth_eq_iff_index_eq)
  qed
  with len le tk show ?thesis by blast
qed

lemma demo_init: "main_init 2 True True = Inr demo_state"
  by (simp add: main_init_def demo_state_def)

lemma demo_run: "\<exists>outs s. run_queue demo_events demo_state = Done (outs, s)"
  by (simp add: demo_events_def demo_state_def enqueue_def dequeue_def Let_def zero_session_def c_rem_def)

theorem dispatch_queue_capacity_witness:
  "\<exists>s. reachable 2 s \<and> sem_full s = 1 \<and> sem_empty s = 1 \<and>
       int (sem_full s) + int (sem_empty s) = buffer_size s \<and>
       int (sem_full s) \<le> buffer_size s \<and> buffer_size s = 2 \<and>
       buffer_size s = int (length (create_threads 2))"
proof -
  have r0: "reachable 2 demo_state"
    by (rule reach_init[OF demo_init])
  obtain s1 where e: "enqueue (demo_req ''a'') demo_state = Done s1"
    and f: "sem_full s1 = 1" "sem_empty s1 = 1"
    by (simp add: enqueue_def demo_state_def Let_def)
  have r1: "reachable 2 s1"
    by (rule reach_enqueue[OF r0 e])
  from dispatch_queue_capacity[OF r1] f show ?thesis
    using r1 by blast
qed

theorem dispatch_queue_fifo_witness:
  "\<exists>outs s. main_init 2 True True = Inr demo_state \<and>
      run_queue demo_events demo_state = Done (outs, s) \<and>
      length outs = 2 \<and> outs = [session_of (demo_req ''a''), session_of (demo_req ''b'')]"
proof -
  from demo_run obtain outs s where r: "run_queue demo_events demo_state = Done (outs, s)"
    by blast
  from dispatch_queue_fifo[OF demo_init r]
  have "length outs = 2" "outs = [session_of (demo_req ''a''), session_of (demo_req ''b'')]"
    by (simp_all add: demo_events_def)
  with demo_init r show ?thesis by blast
qed

section \<open>The dispatch queue under interleaved single steps\<close>

lemma count_update:
  "w < length ws \<Longrightarrow>
     int (length (filter P (ws[w := v]))) =
       int (length (filter P ws)) + (if P v then 1 else 0) - (if P (ws ! w) then 1 else 0)"
proof (induction ws arbitrary: w)
  case Nil
  then show ?case by simp
next
  case (Cons a ws)
  show ?case
  proof (cases w)
    case 0
    then show ?thesis by simp
  next
    case (Suc n)
    with Cons.prems have "n < length ws" by simp
    from Cons.IH[OF this] Suc show ?thesis by (auto split: if_splits)
  qed
qed

lemma count_le: "length (filter (\<lambda>w. w = Worker_has_item) ws) \<le> worker_permits ws"
proof -
  have "filter (\<lambda>w. w = Worker_has_item) ws
      = filter (\<lambda>w. w = Worker_has_item) (filter (\<lambda>w. w \<noteq> Worker_idle) ws)"
    by (induction ws) auto
  then show ?thesis
    unfolding worker_permits_def by (metis length_filter_le)
qed

lemma pool_init_inv:
  assumes "pool_init max_games calloc_ok sem_ok = Inr st"
  shows "pool_inv st \<and> pool_pending st = [] \<and> buffer_size (globals st) = max_games \<and>
         int (length (workers st)) = max_games"
  using assms
  by (auto simp: pool_init_def main_init_def pool_inv_def pool_pending_def records_in_buffer_def
      host_permits_def worker_permits_def create_threads_def split: if_splits)

text \<open>The facts of the invariant while some permit is out or some semaphore is positive.\<close>

lemma pool_inv_positive:
  assumes "pool_inv st"
    and "sem_empty (globals st) \<noteq> 0 \<or> sem_full (globals st) \<noteq> 0 \<or> host st \<noteq> Host_idle \<or>
         worker_permits (workers st) \<noteq> 0"
  shows "0 < buffer_size (globals st)"
    "0 \<le> buffer_in (globals st)" "buffer_in (globals st) < buffer_size (globals st)"
    "0 \<le> buffer_out (globals st)" "buffer_out (globals st) < buffer_size (globals st)"
    "length (session_buffer (globals st)) = nat (buffer_size (globals st))"
    "buffer_in (globals st) =
       (buffer_out (globals st) + int (records_in_buffer st)) mod buffer_size (globals st)"
    "int (sem_empty (globals st)) + int (sem_full (globals st)) + int (host_permits (host st))
        + int (worker_permits (workers st)) = buffer_size (globals st)"
proof -
  from assms(1) have sum: "int (sem_empty (globals st)) + int (sem_full (globals st))
        + int (host_permits (host st)) + int (worker_permits (workers st)) = buffer_size (globals st)"
    by (simp add: pool_inv_def Let_def)
  then show "int (sem_empty (globals st)) + int (sem_full (globals st)) + int (host_permits (host st))
        + int (worker_permits (workers st)) = buffer_size (globals st)" .
  from assms(2) have "0 < int (sem_empty (globals st)) + int (sem_full (globals st))
        + int (host_permits (host st)) + int (worker_permits (workers st))"
    by (auto simp: host_permits_def)
  with sum show cap: "0 < buffer_size (globals st)" by simp
  with assms(1) show "0 \<le> buffer_in (globals st)" "buffer_in (globals st) < buffer_size (globals st)"
    "0 \<le> buffer_out (globals st)" "buffer_out (globals st) < buffer_size (globals st)"
    "length (session_buffer (globals st)) = nat (buffer_size (globals st))"
    "buffer_in (globals st) =
       (buffer_out (globals st) + int (records_in_buffer st)) mod buffer_size (globals st)"
    unfolding pool_inv_def Let_def by blast+
qed

lemma worker_in_pool:
  assumes "w < length ws" "ws ! w \<noteq> Worker_idle"
  shows "worker_permits ws \<noteq> 0"
proof -
  from assms have "ws ! w \<in> set (filter (\<lambda>w. w \<noteq> Worker_idle) ws)" by simp
  then show ?thesis
    unfolding worker_permits_def by (metis length_0_conv empty_iff empty_set)
qed

lemma pool_step_no_fault:
  assumes "pool_inv st"
  shows "pool_step ev st \<noteq> Faults"
proof (cases ev)
  case Host_critical
  show ?thesis
  proof (cases "host st")
    case (Host_has_slot rq)
    then have "host st \<noteq> Host_idle" by simp
    from pool_inv_positive(1,2,3,6)[OF assms] this Host_has_slot Host_critical show ?thesis
      by (simp add: pool_step_def Let_def)
  qed (simp_all add: pool_step_def Host_critical)
next
  case (Worker_critical w)
  show ?thesis
  proof (cases "w < length (workers st) \<and> workers st ! w = Worker_has_item")
    case True
    then have "worker_permits (workers st) \<noteq> 0" by (intro worker_in_pool[of w]) simp_all
    from pool_inv_positive(1,4,5,6)[OF assms] this True Worker_critical show ?thesis
      by (simp add: pool_step_def Let_def)
  next
    case False
    with Worker_critical show ?thesis by (auto simp: pool_step_def Let_def)
  qed
qed (auto simp: pool_step_def Let_def split: worker_pc.splits)

lemma pool_pending_cong:
  assumes "session_buffer (globals st') = session_buffer (globals st)"
    "buffer_out (globals st') = buffer_out (globals st)"
    "buffer_size (globals st') = buffer_size (globals st)"
    "records_in_buffer st' = records_in_buffer st"
  shows "pool_pending st' = pool_pending st"
  using assms by (simp add: pool_pending_def)

lemma pool_step_quiet:
  assumes inv: "pool_inv st"
    and step: "pool_step ev st = Done (r, st')"
    and ev: "ev \<noteq> Host_critical" "\<forall>w. ev \<noteq> Worker_critical w"
  shows "pool_inv st' \<and> r = None \<and> pool_pending st' = pool_pending st \<and>
         length (workers st') = length (workers st) \<and>
         buffer_size (globals st') = buffer_size (globals st)"
proof (cases ev)
  case (Host_sem_wait rq)
  with step have h: "host st = Host_idle" and e: "sem_empty (globals st) \<noteq> 0"
    and st': "st' = st\<lparr>globals := (globals st)\<lparr>sem_empty := sem_empty (globals st) - 1\<rparr>,
                      host := Host_has_slot rq\<rparr>" and r: "r = None"
    by (auto simp: pool_step_def Let_def split: if_splits)
  have rec: "records_in_buffer st' = records_in_buffer st"
    using h by (simp add: st' records_in_buffer_def)
  have "pool_inv st'"
    using inv e h rec unfolding pool_inv_def Let_def
    by (simp add: st' host_permits_def)
  moreover have "pool_pending st' = pool_pending st"
    by (rule pool_pending_cong) (simp_all add: rec, simp_all add: st')
  ultimately show ?thesis using r by (simp add: st')
next
  case Host_critical
  with ev show ?thesis by simp
next
  case Host_sem_post
  with step have h: "host st = Host_wrote"
    and st': "st' = st\<lparr>globals := (globals st)\<lparr>sem_full := sem_full (globals st) + 1\<rparr>,
                      host := Host_idle\<rparr>" and r: "r = None"
    by (auto simp: pool_step_def Let_def split: if_splits)
  have rec: "records_in_buffer st' = records_in_buffer st"
    using h by (simp add: st' records_in_buffer_def)
  have "pool_inv st'"
    using inv h rec unfolding pool_inv_def Let_def
    by (simp add: st' host_permits_def)
  moreover have "pool_pending st' = pool_pending st"
    by (rule pool_pending_cong) (simp_all add: rec, simp_all add: st')
  ultimately show ?thesis using r by (simp add: st')
next
  case (Worker_sem_wait w)
  with step have w: "w < length (workers st)" "workers st ! w = Worker_idle"
    and f: "sem_full (globals st) \<noteq> 0"
    and st': "st' = st\<lparr>globals := (globals st)\<lparr>sem_full := sem_full (globals st) - 1\<rparr>,
                      workers := (workers st)[w := Worker_has_item]\<rparr>" and r: "r = None"
    by (auto simp: pool_step_def Let_def split: if_splits)
  have wp: "int (worker_permits (workers st')) = int (worker_permits (workers st)) + 1"
    using count_update[OF w(1), of "\<lambda>w. w \<noteq> Worker_idle" Worker_has_item] w(2)
    by (simp add: st' worker_permits_def)
  have wi: "int (length (filter (\<lambda>w. w = Worker_has_item) (workers st')))
      = int (length (filter (\<lambda>w. w = Worker_has_item) (workers st))) + 1"
    using count_update[OF w(1), of "\<lambda>w. w = Worker_has_item" Worker_has_item] w(2)
    by (simp add: st')
  have rec: "records_in_buffer st' = records_in_buffer st"
    using wi f by (simp add: st' records_in_buffer_def)
  have "pool_inv st'"
    using inv f wp rec unfolding pool_inv_def Let_def
    by (simp add: st')
  moreover have "pool_pending st' = pool_pending st"
    by (rule pool_pending_cong) (simp_all add: rec, simp_all add: st')
  ultimately show ?thesis using r by (simp add: st')
next
  case (Worker_critical w)
  with ev show ?thesis by simp
next
  case (Worker_sem_post w)
  with step obtain x where w: "w < length (workers st)" "workers st ! w = Worker_took x"
    and st': "st' = st\<lparr>globals := (globals st)\<lparr>sem_empty := sem_empty (globals st) + 1\<rparr>,
                      workers := (workers st)[w := Worker_idle]\<rparr>" and r: "r = None"
    by (auto simp: pool_step_def Let_def split: if_splits worker_pc.splits)
  have wp: "int (worker_permits (workers st')) = int (worker_permits (workers st)) - 1"
    using count_update[OF w(1), of "\<lambda>w. w \<noteq> Worker_idle" Worker_idle] w(2)
    by (simp add: st' worker_permits_def)
  have wi: "int (length (filter (\<lambda>w. w = Worker_has_item) (workers st')))
      = int (length (filter (\<lambda>w. w = Worker_has_item) (workers st)))"
    using count_update[OF w(1), of "\<lambda>w. w = Worker_has_item" Worker_idle] w(2)
    by (simp add: st')
  have rec: "records_in_buffer st' = records_in_buffer st"
    using wi by (simp add: st' records_in_buffer_def)
  have "pool_inv st'"
    using inv wp rec unfolding pool_inv_def Let_def
    by (simp add: st')
  moreover have "pool_pending st' = pool_pending st"
    by (rule pool_pending_cong) (simp_all add: rec, simp_all add: st')
  ultimately show ?thesis using r by (simp add: st')
qed

lemma pool_step_host_critical:
  assumes inv: "pool_inv st"
    and step: "pool_step Host_critical st = Done (r, st')"
  shows "\<exists>rq. host st = Host_has_slot rq \<and> pool_inv st' \<and> r = None \<and>
           pool_pending st' = pool_pending st @ [session_of rq] \<and>
           length (workers st') = length (workers st) \<and>
           buffer_size (globals st') = buffer_size (globals st)"
proof -
  from step obtain rq where h: "host st = Host_has_slot rq"
    by (auto simp: pool_step_def Let_def split: host_pc.splits)
  then have busy: "host st \<noteq> Host_idle" by simp
  note pos = pool_inv_positive[OF inv, of] 
  let ?s = "globals st"
  from pos busy have cap: "0 < buffer_size ?s" and bin: "0 \<le> buffer_in ?s" "buffer_in ?s < buffer_size ?s"
    and len: "length (session_buffer ?s) = nat (buffer_size ?s)"
    and rel: "buffer_in ?s = (buffer_out ?s + int (records_in_buffer st)) mod buffer_size ?s"
    and sum: "int (sem_empty ?s) + int (sem_full ?s) + int (host_permits (host st))
        + int (worker_permits (workers st)) = buffer_size ?s"
    by blast+
  from step h bin len cap have st': "st' = st\<lparr>globals :=
        ?s\<lparr>session_buffer := (session_buffer ?s)[nat (buffer_in ?s) := session_of rq],
           buffer_in := (buffer_in ?s + 1) mod buffer_size ?s\<rparr>,
        host := Host_wrote\<rparr>" and r: "r = None"
    by (auto simp: pool_step_def Let_def c_rem_nonneg split: if_splits)
  have rec: "records_in_buffer st' = records_in_buffer st + 1"
    using h by (simp add: st' records_in_buffer_def)
  have room: "int (records_in_buffer st) < buffer_size ?s"
    using sum h count_le[of "workers st"]
    by (simp add: records_in_buffer_def host_permits_def)
  have "pool_inv st'"
    using inv cap rel h unfolding pool_inv_def Let_def rec
    by (simp add: st' host_permits_def mod_simps ac_simps)
  moreover have "pool_pending st' = pool_pending st @ [session_of rq]"
  proof -
    have old: "(session_buffer ?s)[nat (buffer_in ?s) := session_of rq]
                 ! nat ((buffer_out ?s + int k) mod buffer_size ?s)
             = session_buffer ?s ! nat ((buffer_out ?s + int k) mod buffer_size ?s)"
      if "k < records_in_buffer st" for k
    proof -
      have "(buffer_out ?s + int k) mod buffer_size ?s \<noteq> buffer_in ?s"
        using mod_slot_neq[OF cap that room] rel by simp
      moreover have "0 \<le> (buffer_out ?s + int k) mod buffer_size ?s" using cap by simp
      ultimately have "nat ((buffer_out ?s + int k) mod buffer_size ?s) \<noteq> nat (buffer_in ?s)"
        using bin(1) by (simp only: eq_nat_nat_iff not_False_eq_True)
      then show ?thesis by simp
    qed
    have new: "(session_buffer ?s)[nat (buffer_in ?s) := session_of rq]
                 ! nat ((buffer_out ?s + int (records_in_buffer st)) mod buffer_size ?s)
             = session_of rq"
      using rel bin len by auto
    show ?thesis
      using old new unfolding pool_pending_def rec by (simp add: st')
  qed
  ultimately show ?thesis using h r by (simp add: st')
qed

lemma pool_step_worker_critical:
  assumes inv: "pool_inv st"
    and step: "pool_step (Worker_critical w) st = Done (r, st')"
  shows "\<exists>x. r = Some x \<and> pool_inv st' \<and> pool_pending st = x # pool_pending st' \<and>
           length (workers st') = length (workers st) \<and>
           buffer_size (globals st') = buffer_size (globals st)"
proof -
  from step have w: "w < length (workers st)" "workers st ! w = Worker_has_item"
    by (auto simp: pool_step_def Let_def split: if_splits)
  then have busy: "worker_permits (workers st) \<noteq> 0"
    by (intro worker_in_pool[of w]) simp_all
  note pos = pool_inv_positive[OF inv]
  let ?s = "globals st"
  let ?x = "session_buffer ?s ! nat (buffer_out ?s)"
  from pos busy have cap: "0 < buffer_size ?s" and bout: "0 \<le> buffer_out ?s" "buffer_out ?s < buffer_size ?s"
    and len: "length (session_buffer ?s) = nat (buffer_size ?s)"
    and rel: "buffer_in ?s = (buffer_out ?s + int (records_in_buffer st)) mod buffer_size ?s"
    by blast+
  from step w bout len cap have st': "st' = st\<lparr>globals :=
        ?s\<lparr>buffer_out := (buffer_out ?s + 1) mod buffer_size ?s\<rparr>,
        workers := (workers st)[w := Worker_took ?x]\<rparr>" and r: "r = Some ?x"
    by (auto simp: pool_step_def Let_def c_rem_nonneg split: if_splits)
  have wp: "int (worker_permits (workers st')) = int (worker_permits (workers st))"
    using count_update[OF w(1), of "\<lambda>w. w \<noteq> Worker_idle" "Worker_took ?x"] w(2)
    by (simp add: st' worker_permits_def)
  have wi: "int (length (filter (\<lambda>w. w = Worker_has_item) (workers st')))
      = int (length (filter (\<lambda>w. w = Worker_has_item) (workers st))) - 1"
    using count_update[OF w(1), of "\<lambda>w. w = Worker_has_item" "Worker_took ?x"] w(2)
    by (simp add: st')
  then obtain n where rec: "records_in_buffer st = Suc n" and rec': "records_in_buffer st' = n"
    by (cases "records_in_buffer st") (simp_all add: st' records_in_buffer_def)
  have "pool_inv st'"
    using inv cap rel wp unfolding pool_inv_def Let_def rec rec'
    by (simp add: st' mod_simps ac_simps)
  moreover have "pool_pending st = ?x # pool_pending st'"
  proof -
    have "[0..<Suc n] = 0 # map Suc [0..<n]"
      by (simp add: upt_conv_Cons map_Suc_upt del: upt_Suc)
    then show ?thesis
      using bout unfolding pool_pending_def rec rec'
      by (simp add: o_def st' mod_simps ac_simps del: upt_Suc)
  qed
  ultimately show ?thesis using r by (simp add: st')
qed

lemma pool_run_fifo:
  "pool_inv st \<Longrightarrow> pool_run evs st = Done (written, taken, st') \<Longrightarrow>
     pool_pending st @ written = taken @ pool_pending st' \<and> pool_inv st' \<and>
     length (workers st') = length (workers st) \<and>
     buffer_size (globals st') = buffer_size (globals st)"
proof (induction evs arbitrary: st written taken)
  case Nil
  then show ?case by simp
next
  case (Cons ev evs)
  from Cons.prems(2) obtain r st1 written1 taken1 where
    step: "pool_step ev st = Done (r, st1)"
    and rest: "pool_run evs st1 = Done (written1, taken1, st')"
    and wr: "written = (case (ev, host st) of
                        (Host_critical, Host_has_slot rq) \<Rightarrow> session_of rq # written1
                      | _ \<Rightarrow> written1)"
    and tk: "taken = (case r of Some x \<Rightarrow> x # taken1 | None \<Rightarrow> taken1)"
    by (auto split: outcome.splits prod.splits)
  consider (host) "ev = Host_critical" | (worker) w where "ev = Worker_critical w"
    | (quiet) "ev \<noteq> Host_critical" "\<forall>w. ev \<noteq> Worker_critical w"
    by blast
  then show ?case
  proof cases
    case host
    from pool_step_host_critical[OF Cons.prems(1) step[unfolded host]] obtain rq where
      h: "host st = Host_has_slot rq" and i1: "pool_inv st1" and r: "r = None"
      and p: "pool_pending st1 = pool_pending st @ [session_of rq]"
      and k: "length (workers st1) = length (workers st)"
         "buffer_size (globals st1) = buffer_size (globals st)"
      by blast
    from Cons.IH[OF i1 rest] wr tk h r p k host show ?thesis by simp
  next
    case worker
    from pool_step_worker_critical[OF Cons.prems(1) step[unfolded worker]] obtain x where
      r: "r = Some x" and i1: "pool_inv st1" and p: "pool_pending st = x # pool_pending st1"
      and k: "length (workers st1) = length (workers st)"
         "buffer_size (globals st1) = buffer_size (globals st)"
      by blast
    from Cons.IH[OF i1 rest] wr tk r p k worker show ?thesis by simp
  next
    case quiet
    from pool_step_quiet[OF Cons.prems(1) step quiet]
    have r: "r = None" and i1: "pool_inv st1" and p: "pool_pending st1 = pool_pending st"
      and k: "length (workers st1) = length (workers st)"
         "buffer_size (globals st1) = buffer_size (globals st)"
      by simp_all
    have "written = written1"
      using wr quiet(1) by (cases ev) (simp_all split: host_pc.splits)
    with Cons.IH[OF i1 rest] tk r p k show ?thesis by simp
  qed
qed

lemma pool_run_no_fault: "pool_inv st \<Longrightarrow> pool_run evs st \<noteq> Faults"
proof (induction evs arbitrary: st)
  case Nil
  then show ?case by simp
next
  case (Cons ev evs)
  show ?case
  proof (cases "pool_step ev st")
    case Blocks
    then show ?thesis by simp
  next
    case Faults
    with pool_step_no_fault[OF Cons.prems] show ?thesis by simp
  next
    case (Done p)
    obtain r st1 where p: "p = (r, st1)" by (cases p)
    have "pool_run [ev] st = Done ((case (ev, host st) of
                        (Host_critical, Host_has_slot rq) \<Rightarrow> [session_of rq]
                      | _ \<Rightarrow> []), (case r of Some x \<Rightarrow> [x] | None \<Rightarrow> []), st1)"
      using Done p by (simp split: option.splits queue_step.splits host_pc.splits)
    from pool_run_fifo[OF Cons.prems this] have "pool_inv st1" by simp
    from Cons.IH[OF this] Done p show ?thesis
      by (auto split: outcome.splits)
  qed
qed

text \<open>
  The dispatch queue under every interleaving of the single steps of the host task and
  the workers: no step faults; the semaphore values and the permits held by the threads
  add up to the capacity \<open>max_games\<close>, the number of workers; the records the workers have
  copied out are the first records the host has written, in the same order.
\<close>

lemma pool_interleaving:
  assumes "pool_init max_games calloc_ok sem_ok = Inr st0"
  shows "pool_run evs st0 \<noteq> Faults"
    and "pool_run evs st0 = Done (written, taken, st) \<Longrightarrow>
           written = taken @ pool_pending st \<and>
           length (pool_pending st) = records_in_buffer st \<and>
           int (sem_empty (globals st)) + int (sem_full (globals st))
             + int (host_permits (host st)) + int (worker_permits (workers st)) = max_games \<and>
           buffer_size (globals st) = max_games \<and>
           int (length (workers st)) = max_games"
proof -
  from pool_init_inv[OF assms] have inv: "pool_inv st0" and emp: "pool_pending st0 = []"
    and cap: "buffer_size (globals st0) = max_games" and n: "int (length (workers st0)) = max_games"
    by simp_all
  show "pool_run evs st0 \<noteq> Faults" by (rule pool_run_no_fault[OF inv])
  assume run: "pool_run evs st0 = Done (written, taken, st)"
  from pool_run_fifo[OF inv run] emp cap n
  have "written = taken @ pool_pending st" "pool_inv st" "buffer_size (globals st) = max_games"
    "int (length (workers st)) = max_games"
    by simp_all
  moreover from \<open>pool_inv st\<close> have "int (sem_empty (globals st)) + int (sem_full (globals st))
             + int (host_permits (host st)) + int (worker_permits (workers st)) = buffer_size (globals st)"
    by (simp add: pool_inv_def Let_def)
  moreover have "length (pool_pending st) = records_in_buffer st"
    by (simp add: pool_pending_def)
  ultimately show "written = taken @ pool_pending st \<and>
           length (pool_pending st) = records_in_buffer st \<and>
           int (sem_empty (globals st)) + int (sem_full (globals st))
             + int (host_permits (host st)) + int (worker_permits (workers st)) = max_games \<and>
           buffer_size (globals st) = max_games \<and>
           int (length (workers st)) = max_games"
    by simp
qed

text \<open>
  A completed \<open>enqueue\<close> is the host's three steps run without another thread in
  between, and a completed \<open>dequeue\<close> the three steps of one worker.
\<close>

lemma enqueue_as_steps:
  assumes "host st = Host_idle" and "enqueue rq (globals st) = Done s'"
  shows "pool_run [Host_sem_wait rq, Host_critical, Host_sem_post] st
           = Done ([session_of rq], [], st\<lparr>globals := s'\<rparr>)"
proof -
  from assms(2) have e: "sem_empty (globals st) \<noteq> 0"
    and i: "\<not> (buffer_in (globals st) < 0 \<or>
              int (length (session_buffer (globals st))) \<le> buffer_in (globals st))"
    and z: "buffer_size (globals st) \<noteq> 0"
    by (auto simp: enqueue_def Let_def split: if_splits)
  with assms show ?thesis
    by (simp add: pool_step_def enqueue_def Let_def)
qed

lemma dequeue_as_steps:
  assumes "w < length (workers st)" "workers st ! w = Worker_idle"
    and "dequeue (globals st) = Done (x, s')"
  shows "pool_run [Worker_sem_wait w, Worker_critical w, Worker_sem_post w] st
           = Done ([], [x], st\<lparr>globals := s'\<rparr>)"
proof -
  from assms(3) have f: "sem_full (globals st) \<noteq> 0"
    and i: "\<not> (buffer_out (globals st) < 0 \<or>
              int (length (session_buffer (globals st))) \<le> buffer_out (globals st))"
    and z: "buffer_size (globals st) \<noteq> 0"
    by (auto simp: dequeue_def Let_def split: if_splits)
  have same: "(workers st)[w := Worker_idle] = workers st"
    using assms(1,2) by (metis list_update_id)
  from assms f i z show ?thesis
    by (simp add: pool_step_def dequeue_def Let_def same)
qed

lemma demo_pool_run:
  "\<exists>st0 st. pool_init 2 True True = Inr st0 \<and>
     pool_run demo_steps st0
       = Done ([session_of (demo_req ''a''), session_of (demo_req ''b'')],
               [session_of (demo_req ''a''), session_of (demo_req ''b'')], st) \<and>
     sem_empty (globals st) = 2 \<and> sem_full (globals st) = 0"
  by (simp add: pool_init_def main_init_def create_threads_def demo_steps_def pool_step_def
      Let_def c_rem_def zero_session_def upt_rec)

section \<open>The movement rule: collecting a dot\<close>

lemma c_int_id: "- 2147483648 \<le> x \<Longrightarrow> x \<le> INT_MAX \<Longrightarrow> c_int x = x"
  by (simp add: c_int_def INT_MAX_def)

lemma set_pacman_fields [simp]:
  "board (set_pacman b i f) = board b"
  "width (set_pacman b i f) = width b"
  "height (set_pacman b i f) = height b"
  "shutdown (set_pacman b i f) = shutdown b"
  "level_finished (set_pacman b i f) = level_finished b"
  "n_ghosts (set_pacman b i f) = n_ghosts b"
  "length (pacmans (set_pacman b i f)) = length (pacmans b)"
  by (simp_all add: set_pacman_def)

lemma set_cell_fields [simp]:
  "pacmans (set_cell b i f) = pacmans b"
  "width (set_cell b i f) = width b"
  "height (set_cell b i f) = height b"
  "shutdown (set_cell b i f) = shutdown b"
  "level_finished (set_cell b i f) = level_finished b"
  "n_ghosts (set_cell b i f) = n_ghosts b"
  "length (board (set_cell b i f)) = length (board b)"
  by (simp_all add: set_cell_def)

lemma pacman_at_set_cell [simp]: "pacman_at (set_cell b j f) i = pacman_at b i"
  by (simp add: pacman_at_def)

lemma cell_at_set_pacman [simp]: "cell_at (set_pacman b j f) i = cell_at b i"
  by (simp add: cell_at_def)

lemma pacman_at_set_pacman_same:
  "pacman_at b i = Some pac \<Longrightarrow> pacman_at (set_pacman b i f) i = Some (f pac)"
  by (auto simp: pacman_at_def set_pacman_def split: if_splits)

lemma pacman_at_set_pacman_None [simp]:
  "pacman_at (set_pacman b j f) i = None \<longleftrightarrow> pacman_at b i = None"
  by (auto simp: pacman_at_def set_pacman_def split: if_splits)

lemma cell_at_set_cell_None [simp]:
  "cell_at (set_cell b j f) i = None \<longleftrightarrow> cell_at b i = None"
  by (auto simp: cell_at_def set_cell_def split: if_splits)

lemma cell_at_set_cell_same:
  "cell_at b i = Some c \<Longrightarrow> cell_at (set_cell b i f) i = Some (f c)"
  by (auto simp: cell_at_def set_cell_def split: if_splits)

lemma cell_at_set_cell_other:
  "0 \<le> j \<Longrightarrow> i \<noteq> j \<Longrightarrow> cell_at (set_cell b j f) i = cell_at b i"
  by (auto simp: cell_at_def set_cell_def split: if_splits)

lemma pacman_at_level_finished [simp]: "pacman_at (b\<lparr>level_finished := v\<rparr>) i = pacman_at b i"
  by (simp add: pacman_at_def)

lemma pacman_at_shutdown [simp]: "pacman_at (b\<lparr>shutdown := v\<rparr>) i = pacman_at b i"
  by (simp add: pacman_at_def)

lemma cell_at_level_finished [simp]: "cell_at (b\<lparr>level_finished := v\<rparr>) i = cell_at b i"
  by (simp add: cell_at_def)

lemma return_codes_distinct [simp]:
  "REACHED_PORTAL \<noteq> VALID_MOVE" "REACHED_PORTAL \<noteq> INVALID_MOVE" "REACHED_PORTAL \<noteq> DEAD_PACMAN"
  "VALID_MOVE \<noteq> REACHED_PORTAL" "VALID_MOVE \<noteq> INVALID_MOVE" "VALID_MOVE \<noteq> DEAD_PACMAN"
  "INVALID_MOVE \<noteq> REACHED_PORTAL" "INVALID_MOVE \<noteq> VALID_MOVE" "INVALID_MOVE \<noteq> DEAD_PACMAN"
  "DEAD_PACMAN \<noteq> REACHED_PORTAL" "DEAD_PACMAN \<noteq> VALID_MOVE" "DEAD_PACMAN \<noteq> INVALID_MOVE"
  by (simp_all add: REACHED_PORTAL_def VALID_MOVE_def INVALID_MOVE_def DEAD_PACMAN_def)

text \<open>What a step to a cell does when it returns \<open>VALID_MOVE\<close>.\<close>

lemma move_pacman_to_valid:
  assumes mv: "move_pacman_to b i nx ny = Some (VALID_MOVE, b')"
    and pac: "pacman_at b i = Some pac"
  shows "\<exists>target.
           is_valid_position b nx ny \<and>
           cell_at b (get_board_index b nx ny) = Some target \<and>
           has_portal target = 0 \<and>
           content target \<noteq> CHR ''W'' \<and> content target \<noteq> CHR ''X'' \<and> content target \<noteq> CHR ''M'' \<and>
           b' = set_cell
                  (set_pacman
                     (set_cell
                        (if has_dot target \<noteq> 0
                         then set_cell
                                (set_pacman
                                   (set_pacman b i (\<lambda>p. p\<lparr>current_move := c_int (current_move p + 1)\<rparr>))
                                   i (\<lambda>p. p\<lparr>points := c_int (points p + get_board_index b nx ny)\<rparr>))
                                (get_board_index b nx ny) (\<lambda>c. c\<lparr>has_dot := 0\<rparr>)
                         else set_pacman b i (\<lambda>p. p\<lparr>current_move := c_int (current_move p + 1)\<rparr>))
                        (get_board_index b (pos_x pac) (pos_y pac)) (\<lambda>c. c\<lparr>content := CHR '' ''\<rparr>))
                     i (\<lambda>p. p\<lparr>pos_x := nx, pos_y := ny\<rparr>))
                  (get_board_index b nx ny) (\<lambda>c. c\<lparr>content := CHR ''C''\<rparr>)"
  using mv pac
  by (auto simp: move_pacman_to_def Let_def get_board_index_def is_valid_position_def
           split: option.splits if_splits)

lemma dot_flags_set_pacman [simp]: "dot_flags (set_pacman b i f) = dot_flags b"
  by (simp add: dot_flags_def)

lemma dot_flags_level_finished [simp]: "dot_flags (b\<lparr>level_finished := v\<rparr>) = dot_flags b"
  by (simp add: dot_flags_def)

lemma map_update_same: "(map f xs)[i := f (xs ! i)] = map f xs"
  by (metis list_update_id map_update)

lemma dot_flags_set_content [simp]:
  "dot_flags (set_cell b j (\<lambda>c. c\<lparr>content := v\<rparr>)) = dot_flags b"
  by (simp add: dot_flags_def set_cell_def map_update map_update_same)

lemma dot_flags_clear [simp]:
  "dot_flags (set_cell b j (\<lambda>c. c\<lparr>has_dot := 0\<rparr>)) = (dot_flags b)[nat j := 0]"
  by (simp add: dot_flags_def set_cell_def map_update)

lemma dot_flags_write_command [simp]: "dot_flags (write_command b r f) = dot_flags b"
  by (cases r) (simp_all add: write_command_def)

lemma dot_flags_kill_pacman: "kill_pacman b i = Some b' \<Longrightarrow> dot_flags b' = dot_flags b"
  by (auto simp: kill_pacman_def Let_def split: option.splits)

text \<open>No call of the movement rule sets a dot flag.\<close>

lemma dots_within_refl [simp]: "dots_within ds ds"
  by (simp add: dots_within_def)

lemma dots_within_clear [simp]: "dots_within (ds[k := 0]) ds"
  by (cases "k < length ds") (auto simp: dots_within_def nth_list_update)

lemma dots_within_trans: "dots_within a b \<Longrightarrow> dots_within b c \<Longrightarrow> dots_within a c"
  by (simp add: dots_within_def)

lemma move_pacman_to_dots:
  "move_pacman_to b i nx ny = Some (r, b') \<Longrightarrow> dots_within (dot_flags b') (dot_flags b)"
  by (auto simp: move_pacman_to_def Let_def dot_flags_kill_pacman
           split: option.splits if_splits)

lemma move_pacman_dots:
  "move_pacman b i cmd rnd = Some (r, b') \<Longrightarrow> dots_within (dot_flags b') (dot_flags b)"
  by (auto simp: move_pacman_def Let_def split: option.splits if_splits
           dest!: move_pacman_to_dots)

lemma pacman_moves_dots:
  "pacman_moves calls b = Some b' \<Longrightarrow> dots_within (dot_flags b') (dot_flags b)"
proof (induction calls arbitrary: b)
  case Nil
  then show ?case by simp
next
  case (Cons call calls)
  obtain i cmd rnd where call: "call = (i, cmd, rnd)" by (cases call)
  from Cons.prems call obtain r b1 where m: "move_pacman b i cmd rnd = Some (r, b1)"
    and rest: "pacman_moves calls b1 = Some b'"
    by (auto split: option.splits)
  from Cons.IH[OF rest] move_pacman_dots[OF m] show ?case
    by (rule dots_within_trans)
qed

lemma pacman_at_write_command:
  assumes "pacman_at b i = Some q0"
  shows "\<exists>q. pacman_at (write_command b r f) i = Some q \<and> pos_x q = pos_x q0 \<and> pos_y q = pos_y q0
             \<and> points q = points q0"
proof (cases r)
  case (Local_cmd c)
  with assms show ?thesis by (simp add: write_command_def)
next
  case (Pacman_move p k)
  show ?thesis
  proof (cases "nat p = nat i")
    case True
    with assms Pacman_move show ?thesis
      by (auto simp: write_command_def pacman_at_def set_pacman_def split: if_splits)
  next
    case False
    with assms Pacman_move show ?thesis
      by (auto simp: write_command_def pacman_at_def set_pacman_def split: if_splits)
  qed
qed

lemma move_pacman_valid_cases:
  assumes mv: "move_pacman b i cmd rnd = Some (VALID_MOVE, b')"
    and pac: "pacman_at b i = Some pac"
  shows "(\<exists>nx ny. move_pacman_to (set_pacman b i (\<lambda>p. p\<lparr>waiting := passo p\<rparr>)) i nx ny
                     = Some (VALID_MOVE, b'))
         \<or> (\<exists>q. pacman_at b' i = Some q \<and> pos_x q = pos_x pac \<and> pos_y q = pos_y pac)"
proof -
  let ?b1 = "set_pacman b i (\<lambda>p. p\<lparr>waiting := passo p\<rparr>)"
  have p1: "pacman_at ?b1 i = Some (pac\<lparr>waiting := passo pac\<rparr>)"
    by (rule pacman_at_set_pacman_same[OF pac])
  have w: "\<exists>q. pacman_at (write_command ?b1 cmd f) i = Some q \<and> pos_x q = pos_x pac \<and> pos_y q = pos_y pac" for f
    using pacman_at_write_command[OF p1, of cmd f] by auto
  let ?b2 = "set_pacman ?b1 i (\<lambda>p. p\<lparr>current_move := c_int (current_move p + 1)\<rparr>)"
  have p2: "pacman_at ?b2 i = Some (pac\<lparr>waiting := passo pac, current_move := c_int (current_move pac + 1)\<rparr>)"
    using pacman_at_set_pacman_same[OF p1] by simp
  have w2: "\<exists>q. pacman_at (write_command ?b2 cmd f) i = Some q \<and> pos_x q = pos_x pac \<and> pos_y q = pos_y pac" for f
    using pacman_at_write_command[OF p2, of cmd f] by auto
  have w0: "pacman_at (set_pacman b i (\<lambda>p. p\<lparr>waiting := waiting p - 1\<rparr>)) i = Some (pac\<lparr>waiting := waiting pac - 1\<rparr>)"
    by (rule pacman_at_set_pacman_same[OF pac])
  from mv pac show ?thesis
    unfolding move_pacman_def Let_def
    using w w2 w0
    by (auto split: option.splits if_splits)
qed

lemma get_board_index_exact:
  assumes "is_valid_position b x y" "y * width b + x \<le> INT_MAX"
  shows "get_board_index b x y = y * width b + x"
proof -
  from assms(1) have "0 \<le> y * width b" "0 \<le> x"
    by (simp_all add: is_valid_position_def)
  then have "- 2147483648 \<le> y * width b + x" by linarith
  with assms(2) show ?thesis
    unfolding get_board_index_def by (simp add: c_int_id)
qed

text \<open>
  Claim C9. Whenever \<open>move_pacman\<close> returns \<open>VALID_MOVE\<close> and has moved the pacman onto a
  cell whose dot flag was set, the score has grown by the linear index of that cell
  (\<open>y * width + x\<close>, in 32-bit arithmetic; exactly that sum when it does not overflow),
  the cell was inside the board and neither a portal, a wall nor a ghost, and the cell's
  dot flag is cleared and stays cleared through every later call of \<open>move_pacman\<close>, so
  the dot is not collected again.
\<close>

theorem pacman_collects_dot:
  assumes mv: "move_pacman b i cmd rnd = Some (VALID_MOVE, b')"
    and pac: "pacman_at b i = Some pac"
    and pac': "pacman_at b' i = Some pac'"
    and moved: "pos_x pac' \<noteq> pos_x pac \<or> pos_y pac' \<noteq> pos_y pac"
    and target: "cell_at b (get_board_index b (pos_x pac') (pos_y pac')) = Some target"
    and dot: "has_dot target \<noteq> 0"
  shows "points pac' = c_int (points pac + get_board_index b (pos_x pac') (pos_y pac')) \<and>
         (0 \<le> points pac \<and> points pac + (pos_y pac' * width b + pos_x pac') \<le> INT_MAX \<longrightarrow>
            points pac' = points pac + (pos_y pac' * width b + pos_x pac')) \<and>
         is_valid_position b (pos_x pac') (pos_y pac') \<and>
         has_portal target = 0 \<and>
         content target \<noteq> CHR ''W'' \<and> content target \<noteq> CHR ''X'' \<and> content target \<noteq> CHR ''M'' \<and>
         dot_flags b' ! nat (get_board_index b (pos_x pac') (pos_y pac')) = 0 \<and>
         (\<forall>calls b''. pacman_moves calls b' = Some b'' \<longrightarrow>
            dot_flags b'' ! nat (get_board_index b (pos_x pac') (pos_y pac')) = 0)"
proof -
  let ?b1 = "set_pacman b i (\<lambda>p. p\<lparr>waiting := passo p\<rparr>)"
  have p1: "pacman_at ?b1 i = Some (pac\<lparr>waiting := passo pac\<rparr>)"
    by (rule pacman_at_set_pacman_same[OF pac])
  from move_pacman_valid_cases[OF mv pac] pac' moved
  obtain nx ny where to: "move_pacman_to ?b1 i nx ny = Some (VALID_MOVE, b')"
    by auto
  from move_pacman_to_valid[OF to p1] obtain t where
    valid: "is_valid_position b nx ny"
    and t: "cell_at b (get_board_index b nx ny) = Some t"
    and noportal: "has_portal t = 0"
    and nowall: "content t \<noteq> CHR ''W''" "content t \<noteq> CHR ''X''" "content t \<noteq> CHR ''M''"
    and b': "b' = set_cell
                  (set_pacman
                     (set_cell
                        (if has_dot t \<noteq> 0
                         then set_cell
                                (set_pacman
                                   (set_pacman ?b1 i (\<lambda>p. p\<lparr>current_move := c_int (current_move p + 1)\<rparr>))
                                   i (\<lambda>p. p\<lparr>points := c_int (points p + get_board_index b nx ny)\<rparr>))
                                (get_board_index b nx ny) (\<lambda>c. c\<lparr>has_dot := 0\<rparr>)
                         else set_pacman ?b1 i (\<lambda>p. p\<lparr>current_move := c_int (current_move p + 1)\<rparr>))
                        (get_board_index b (pos_x pac) (pos_y pac)) (\<lambda>c. c\<lparr>content := CHR '' ''\<rparr>))
                     i (\<lambda>p. p\<lparr>pos_x := nx, pos_y := ny\<rparr>))
                  (get_board_index b nx ny) (\<lambda>c. c\<lparr>content := CHR ''C''\<rparr>)"
    by (auto simp: get_board_index_def is_valid_position_def)
  let ?idx = "get_board_index b nx ny"
  have pos: "pos_x pac' = nx" "pos_y pac' = ny"
    and pts: "has_dot t \<noteq> 0 \<Longrightarrow> points pac' = c_int (points pac + ?idx)"
    using pac' pac unfolding b'
    by (auto simp: pacman_at_def set_pacman_def split: if_splits)
  from target t pos have tt: "t = target" by simp
  have idx_range: "0 \<le> ?idx" "nat ?idx < length (dot_flags b)"
    using t by (auto simp: cell_at_def dot_flags_def split: if_splits)
  have cleared: "dot_flags b' ! nat ?idx = 0"
    using dot tt idx_range unfolding b' by simp
  have later: "dot_flags b'' ! nat ?idx = 0" if "pacman_moves calls b' = Some b''" for calls b''
  proof -
    from pacman_moves_dots[OF that] have "dots_within (dot_flags b'') (dot_flags b')" .
    moreover have "length (dot_flags b') = length (dot_flags b)"
      using move_pacman_dots[OF mv] by (simp add: dots_within_def)
    ultimately show ?thesis
      using cleared idx_range(2) by (simp add: dots_within_def)
  qed
  have exact: "points pac' = points pac + (ny * width b + nx)"
    if "0 \<le> points pac" "points pac + (ny * width b + nx) \<le> INT_MAX"
  proof -
    from valid have nonneg: "0 \<le> ny * width b + nx"
      by (simp add: is_valid_position_def)
    with that have "ny * width b + nx \<le> INT_MAX" by linarith
    from get_board_index_exact[OF valid this] have i: "?idx = ny * width b + nx" .
    have "c_int (points pac + (ny * width b + nx)) = points pac + (ny * width b + nx)"
      using that nonneg by (intro c_int_id) linarith+
    with pts dot tt i show ?thesis by simp
  qed
  from pts dot tt exact valid noportal nowall cleared later show ?thesis
    by (simp add: pos)
qed

lemma toupper_d: "toupper (CHR ''d'') = CHR ''D''"
  by code_simp

lemma demo_step_dot:
  "move_pacman demo_board 0 (demo_key (CHR ''d'')) 0 = Some (VALID_MOVE, demo_board_dot)"
  by code_simp

theorem pacman_collects_dot_witness:
  "move_pacman demo_board 0 (demo_key (CHR ''d'')) 0 = Some (VALID_MOVE, demo_board_dot) \<and>
   pacman_at demo_board 0 = Some demo_pacman \<and>
   pos_x demo_pacman = 0 \<and>
   pacman_at demo_board_dot 0 = Some (demo_pacman\<lparr>pos_x := 1, points := 4, current_move := 1\<rparr>) \<and>
   get_board_index demo_board 1 1 = 4 \<and>
   cell_at demo_board 4 = Some \<lparr>content = CHR '' '', has_dot = 1, has_portal = 0\<rparr> \<and>
   points (demo_pacman\<lparr>pos_x := 1, points := 4, current_move := 1\<rparr>) = points demo_pacman + (1 * 3 + 1) \<and>
   dot_flags demo_board_dot ! 4 = 0"
proof -
  have p: "pacman_at demo_board 0 = Some demo_pacman"
    by (simp add: pacman_at_def demo_board_def)
  have p': "pacman_at demo_board_dot 0 = Some (demo_pacman\<lparr>pos_x := 1, points := 4, current_move := 1\<rparr>)"
    by (simp add: pacman_at_def demo_board_dot_def)
  have i: "get_board_index demo_board 1 1 = 4"
    by (simp add: get_board_index_def demo_board_def c_int_def)
  have t: "cell_at demo_board 4 = Some \<lparr>content = CHR '' '', has_dot = 1, has_portal = 0\<rparr>"
    by (simp add: cell_at_def demo_board_def)
  have x: "pos_x demo_pacman = 0" "pos_y demo_pacman = 1" "points demo_pacman = 0"
    by (simp_all add: demo_pacman_def)
  have w: "width demo_board = 3"
    by (simp add: demo_board_def)
  from pacman_collects_dot[OF demo_step_dot p p', of "\<lparr>content = CHR '' '', has_dot = 1, has_portal = 0\<rparr>"]
  show ?thesis using p p' i t x w demo_step_dot
    by (simp add: INT_MAX_def)
qed

subsection \<open>The pending-command field and the choice of the command\<close>


lemma choose_command_clears:
  assumes "choose_command b = Some (play, b')"
  shows "\<exists>p'. pacman_at b' 0 = Some p' \<and> next_user_move p' = CHR '' ''"
proof -
  from assms obtain pacman where p: "pacman_at b 0 = Some pacman"
    by (auto simp: choose_command_def split: option.splits)
  show ?thesis
  proof (cases "next_user_move pacman = CHR '' ''")
    case True
    with assms p have "b' = b"
      by (auto simp: choose_command_def split: if_splits)
    with p True show ?thesis by simp
  next
    case False
    with assms p have "b' = set_pacman b 0 (\<lambda>p. p\<lparr>next_user_move := CHR '' ''\<rparr>)"
      by (auto simp: choose_command_def)
    with pacman_at_set_pacman_same[OF p] show ?thesis by simp
  qed
qed

lemma listener_read_move:
  assumes "pacman_at b 0 = Some pacman"
    and "sizeof_move_req_t \<le> read_n r" and "move_req_t.op_code (read_move r) = OP_MOVE"
  shows "listener_read r b =
           Listener_continues (set_pacman b 0 (\<lambda>p. p\<lparr>next_user_move := key (read_move r)\<rparr>)) []"
  using assms by (simp add: listener_read_def sizeof_move_req_t_def)

lemma set_pacman_twice:
  "set_pacman (set_pacman b i (\<lambda>p. p\<lparr>next_user_move := c1\<rparr>)) i (\<lambda>p. p\<lparr>next_user_move := c2\<rparr>)
     = set_pacman b i (\<lambda>p. p\<lparr>next_user_move := c2\<rparr>)"
  by (cases "nat i < length (pacmans b)") (simp_all add: set_pacman_def list_update_beyond)

text \<open>
  Claim C4. \<open>next_user_move\<close> is a single-slot mailbox: when the listener stores the key
  of one move message and then the key of a second one before the pacman thread's next
  choice, the board is the one that storing the second key alone gives; the pacman thread
  then plays the second key, and after its choice the slot holds the blank again.
\<close>

theorem mailbox_last_write_wins:
  assumes p: "pacman_at b 0 = Some pacman"
    and r1: "sizeof_move_req_t \<le> read_n r1" "move_req_t.op_code (read_move r1) = OP_MOVE"
    and r2: "sizeof_move_req_t \<le> read_n r2" "move_req_t.op_code (read_move r2) = OP_MOVE"
  shows "\<exists>b1 b2.
           listener_read r1 b = Listener_continues b1 [] \<and>
           listener_read r2 b1 = Listener_continues b2 [] \<and>
           listener_read r2 b = Listener_continues b2 [] \<and>
           pacman_at b2 0 = Some (pacman\<lparr>next_user_move := key (read_move r2)\<rparr>) \<and>
           (key (read_move r2) \<noteq> CHR '' '' \<longrightarrow>
              (\<exists>b3 p3.
                 choose_command b2 =
                   Some (Local_cmd \<lparr>command = key (read_move r2), turns = 0, turns_left = 0\<rparr>, b3) \<and>
                 pacman_at b3 0 = Some p3 \<and> next_user_move p3 = CHR '' '')) \<and>
           (\<forall>play b3. choose_command b2 = Some (play, b3) \<longrightarrow>
              (\<exists>p3. pacman_at b3 0 = Some p3 \<and> next_user_move p3 = CHR '' ''))"
proof -
  let ?b1 = "set_pacman b 0 (\<lambda>p. p\<lparr>next_user_move := key (read_move r1)\<rparr>)"
  let ?b2 = "set_pacman b 0 (\<lambda>p. p\<lparr>next_user_move := key (read_move r2)\<rparr>)"
  have p1: "pacman_at ?b1 0 = Some (pacman\<lparr>next_user_move := key (read_move r1)\<rparr>)"
    by (rule pacman_at_set_pacman_same[OF p])
  have p2: "pacman_at ?b2 0 = Some (pacman\<lparr>next_user_move := key (read_move r2)\<rparr>)"
    by (rule pacman_at_set_pacman_same[OF p])
  have s1: "listener_read r1 b = Listener_continues ?b1 []"
    by (rule listener_read_move[OF p r1])
  have s2: "listener_read r2 b = Listener_continues ?b2 []"
    by (rule listener_read_move[OF p r2])
  have s12: "listener_read r2 ?b1 = Listener_continues ?b2 []"
    using listener_read_move[OF p1 r2] by (simp add: set_pacman_twice)
  have consume: "\<exists>b3 p3.
       choose_command ?b2 =
         Some (Local_cmd \<lparr>command = key (read_move r2), turns = 0, turns_left = 0\<rparr>, b3) \<and>
       pacman_at b3 0 = Some p3 \<and> next_user_move p3 = CHR '' ''"
    if "key (read_move r2) \<noteq> CHR '' ''"
  proof -
    from that p2 have c: "choose_command ?b2 =
        Some (Local_cmd \<lparr>command = key (read_move r2), turns = 0, turns_left = 0\<rparr>,
              set_pacman ?b2 0 (\<lambda>p. p\<lparr>next_user_move := CHR '' ''\<rparr>))"
      by (simp add: choose_command_def)
    from choose_command_clears[OF c] c show ?thesis by blast
  qed
  from s1 s12 s2 p2 consume choose_command_clears show ?thesis by blast
qed

theorem mailbox_last_write_wins_witness:
  "pacman_at demo_board 0 = Some demo_pacman \<and>
   sizeof_move_req_t \<le> read_n (demo_move_read (CHR ''a'')) \<and>
   move_req_t.op_code (read_move (demo_move_read (CHR ''a''))) = OP_MOVE \<and>
   sizeof_move_req_t \<le> read_n (demo_move_read (CHR ''d'')) \<and>
   move_req_t.op_code (read_move (demo_move_read (CHR ''d''))) = OP_MOVE \<and>
   (\<exists>b1 b2. listener_read (demo_move_read (CHR ''a'')) demo_board = Listener_continues b1 [] \<and>
      listener_read (demo_move_read (CHR ''d'')) b1 = Listener_continues b2 [] \<and>
      listener_read (demo_move_read (CHR ''d'')) demo_board = Listener_continues b2 [] \<and>
      pacman_at b2 0 = Some (demo_pacman\<lparr>next_user_move := CHR ''d''\<rparr>) \<and>
      (\<exists>b3 p3. choose_command b2 = Some (demo_key (CHR ''d''), b3) \<and>
         pacman_at b3 0 = Some p3 \<and> next_user_move p3 = CHR '' ''))"
proof -
  have p: "pacman_at demo_board 0 = Some demo_pacman"
    by (simp add: pacman_at_def demo_board_def)
  have r: "sizeof_move_req_t \<le> read_n (demo_move_read k)"
    "move_req_t.op_code (read_move (demo_move_read k)) = OP_MOVE"
    "key (read_move (demo_move_read k)) = k" for k
    by (simp_all add: demo_move_read_def sizeof_move_req_t_def)
  from mailbox_last_write_wins[OF p r(1,2) r(1,2), of "CHR ''a''" "CHR ''d''"]
  show ?thesis using p r by (simp add: demo_key_def) blast
qed


subsection \<open>The outcome of a stage\<close>















subsection \<open>The command listener\<close>

lemma listener_read_cases:
  "(read_n r = 0 \<longrightarrow> listener_read r b = Listener_returns (b\<lparr>shutdown := 1\<rparr>)) \<and>
   (read_n r < 0 \<longrightarrow> listener_read r b = Listener_continues b []) \<and>
   (0 < read_n r \<and> read_n r < sizeof_move_req_t \<longrightarrow>
      listener_read r b = Listener_continues b [Partial_message (read_n r)]) \<and>
   (sizeof_move_req_t \<le> read_n r \<and> move_req_t.op_code (read_move r) = OP_DISCONNECT \<longrightarrow>
      listener_read r b = Listener_returns (b\<lparr>shutdown := 1\<rparr>)) \<and>
   (sizeof_move_req_t \<le> read_n r \<and> move_req_t.op_code (read_move r) \<noteq> OP_MOVE \<and>
    move_req_t.op_code (read_move r) \<noteq> OP_DISCONNECT \<longrightarrow>
      listener_read r b = Listener_continues b [Unknown_opcode (move_req_t.op_code (read_move r))])"
  by (simp add: listener_read_def sizeof_move_req_t_def OP_MOVE_def OP_DISCONNECT_def)

text \<open>
  Claim C6 says that an explicit disconnect message makes the listener set the shutdown
  flag and return. The disconnect message of the protocol (\<open>disconnect_req_t\<close>, as the
  client writes it) is one byte long; the listener reads \<open>sizeof(move_req_t)\<close> = 2 bytes, so
  the \<open>read\<close> that carries it returns 1 and is treated as a partial message: a warning
  is written, the flag stays clear and the thread stays in its loop; it returns only when
  the client then closes the pipe and the next \<open>read\<close> returns 0. The other cases of the
  claim are \<open>listener_read_cases\<close>.
\<close>

theorem listener_ignores_disconnect_message:
  "listener_read demo_disconnect_read b = Listener_continues b [Partial_message 1] \<and>
   shutdown demo_board = 0 \<and>
   input_listener_thread 3 [(\<lambda>b. b, demo_disconnect_read)] demo_board
     = (None, demo_board, [Partial_message 1]) \<and>
   input_listener_thread 3 [(\<lambda>b. b, demo_disconnect_read), (\<lambda>b. b, demo_eof_read)] demo_board
     = (Some Returned, demo_board\<lparr>shutdown := 1\<rparr>, [Partial_message 1])"
  by (simp add: listener_read_def demo_disconnect_read_def demo_eof_read_def
      sizeof_move_req_t_def demo_board_def)

subsection \<open>The connect response of the host task\<close>

text \<open>
  Claim C7 as stated asks for a response with a nonzero result whenever a well-formed
  request is rejected or fails. The host task has no such path: when the client's pipe
  cannot be opened the iteration ends with no response written at all, so the statement
  fails for that request.
\<close>

theorem connect_response_never_nonzero:
  "\<not> (\<forall>rd open_ok.
        bytes_read rd = sizeof_connect_req_t \<and> connect_req_t.op_code (fifo_req rd) = OP_CONNECT \<longrightarrow>
        (\<exists>resp. Write_client resp \<in> set (host_actions (host_iteration rd open_ok)) \<and>
                (open_ok \<longrightarrow> result resp = 0) \<and> (\<not> open_ok \<longrightarrow> result resp \<noteq> 0)))"
proof
  assume a: "\<forall>rd open_ok.
        bytes_read rd = sizeof_connect_req_t \<and> connect_req_t.op_code (fifo_req rd) = OP_CONNECT \<longrightarrow>
        (\<exists>resp. Write_client resp \<in> set (host_actions (host_iteration rd open_ok)) \<and>
                (open_ok \<longrightarrow> result resp = 0) \<and> (\<not> open_ok \<longrightarrow> result resp \<noteq> 0))"
  have w: "bytes_read demo_fifo_read = sizeof_connect_req_t \<and>
           connect_req_t.op_code (fifo_req demo_fifo_read) = OP_CONNECT"
    by (simp add: demo_fifo_read_def demo_req_def sizeof_connect_req_t_def OP_CONNECT_def)
  have "host_actions (host_iteration demo_fifo_read False) = [Open_client (notif_pipe (demo_req ''a''))]"
    by (simp add: host_iteration_def host_actions_def demo_fifo_read_def demo_req_def
        sizeof_connect_req_t_def OP_CONNECT_def)
  moreover from a w obtain resp where
    "Write_client resp \<in> set (host_actions (host_iteration demo_fifo_read False))"
    by blast
  ultimately show False by simp
qed

text \<open>
  Claim C7, amended. For every well-formed connect request (81 bytes, opcode
  \<open>OP_CONNECT\<close>) whose notification pipe can be opened, the host task writes the two-byte
  response with opcode 1 and result 0, closes the pipe and only then enqueues the session.
  When the pipe cannot be opened it writes nothing and does not enqueue the session.
  Every response the host task ever writes has result 0.
\<close>

theorem connect_response:
  assumes "bytes_read rd = sizeof_connect_req_t"
    and "connect_req_t.op_code (fifo_req rd) = OP_CONNECT"
  shows "(open_ok \<longrightarrow>
            host_iteration rd open_ok =
              Host_continue [Open_client (notif_pipe (fifo_req rd)),
                             Write_client \<lparr>resp_op_code = OP_CONNECT, result = 0\<rparr>,
                             Close_client,
                             Enqueue_session (fifo_req rd)] \<and>
            encode_connect_resp \<lparr>resp_op_code = OP_CONNECT, result = 0\<rparr> = [1, 0]) \<and>
         (\<not> open_ok \<longrightarrow>
            host_iteration rd open_ok = Host_continue [Open_client (notif_pipe (fifo_req rd))]) \<and>
         (\<forall>rd' ok' resp. Write_client resp \<in> set (host_actions (host_iteration rd' ok')) \<longrightarrow>
            resp_op_code resp = OP_CONNECT \<and> result resp = 0) \<and>
         (\<forall>reads resp. Write_client resp \<in> set (host_task reads) \<longrightarrow>
            resp_op_code resp = OP_CONNECT \<and> result resp = 0)"
proof -
  have one: "resp_op_code resp = OP_CONNECT \<and> result resp = 0"
    if "Write_client resp \<in> set (host_actions (host_iteration rd' ok'))" for rd' ok' resp
    using that by (auto simp: host_iteration_def host_actions_def split: if_splits)
  have all: "resp_op_code resp = OP_CONNECT \<and> result resp = 0"
    if "Write_client resp \<in> set (host_task reads)" for reads resp
    using that
  proof (induction reads)
    case Nil
    then show ?case by simp
  next
    case (Cons x reads)
    obtain rd' ok' where x: "x = (rd', ok')" by (cases x)
    show ?case
    proof (cases "host_iteration rd' ok'")
      case Host_break
      with Cons.prems x show ?thesis by simp
    next
      case (Host_continue acts)
      with Cons.prems x have "Write_client resp \<in> set acts \<or> Write_client resp \<in> set (host_task reads)"
        by auto
      then show ?thesis
      proof
        assume "Write_client resp \<in> set acts"
        with Host_continue have "Write_client resp \<in> set (host_actions (host_iteration rd' ok'))"
          by (simp add: host_actions_def)
        then show ?thesis by (rule one)
      next
        assume "Write_client resp \<in> set (host_task reads)"
        then show ?thesis by (rule Cons.IH)
      qed
    qed
  qed
  have ok: "host_iteration rd True =
              Host_continue [Open_client (notif_pipe (fifo_req rd)),
                             Write_client \<lparr>resp_op_code = OP_CONNECT, result = 0\<rparr>,
                             Close_client,
                             Enqueue_session (fifo_req rd)]"
    using assms by (simp add: host_iteration_def sizeof_connect_req_t_def)
  have bytes: "encode_connect_resp \<lparr>resp_op_code = OP_CONNECT, result = 0\<rparr> = [1, 0]"
    by (simp add: encode_connect_resp_def OP_CONNECT_def)
  have failed: "host_iteration rd False = Host_continue [Open_client (notif_pipe (fifo_req rd))]"
    using assms by (simp add: host_iteration_def sizeof_connect_req_t_def)
  show ?thesis
  proof (intro conjI allI impI)
    fix rd' ok' resp
    assume "Write_client resp \<in> set (host_actions (host_iteration rd' ok'))"
    then show "resp_op_code resp = OP_CONNECT" "result resp = 0"
      using one by blast+
  next
    fix reads resp
    assume "Write_client resp \<in> set (host_task reads)"
    then show "resp_op_code resp = OP_CONNECT" "result resp = 0"
      using all by blast+
  qed (use ok bytes failed in simp_all)
qed

theorem connect_response_witness:
  "bytes_read demo_fifo_read = sizeof_connect_req_t \<and>
   connect_req_t.op_code (fifo_req demo_fifo_read) = OP_CONNECT \<and>
   host_iteration demo_fifo_read True =
     Host_continue [Open_client ''/tmp/notif_a'',
                    Write_client \<lparr>resp_op_code = 1, result = 0\<rparr>,
                    Close_client,
                    Enqueue_session (demo_req ''a'')] \<and>
   host_iteration demo_fifo_read False = Host_continue [Open_client ''/tmp/notif_a'']"
proof -
  have w: "bytes_read demo_fifo_read = sizeof_connect_req_t"
    "connect_req_t.op_code (fifo_req demo_fifo_read) = OP_CONNECT"
    by (simp_all add: demo_fifo_read_def demo_req_def sizeof_connect_req_t_def OP_CONNECT_def)
  have n: "notif_pipe (fifo_req demo_fifo_read) = ''/tmp/notif_a''" "fifo_req demo_fifo_read = demo_req ''a''"
    by (simp_all add: demo_fifo_read_def demo_req_def)
  from connect_response[OF w, of True] connect_response[OF w, of False]
  show ?thesis using w n by (simp add: OP_CONNECT_def)
qed

subsection \<open>The score report\<close>




















subsection \<open>The level list\<close>




lemma c_string_no_NUL [simp]: "NUL \<notin> set (c_string s)"
  by (auto simp: c_string_def dest: set_takeWhileD)

lemma level_path_no_NUL [simp]: "NUL \<notin> set (level_path d e)"
proof -
  have "NUL \<noteq> CHR 0x2F" by (simp add: NUL_def)
  then have "NUL \<notin> set (c_string d @ [CHR 0x2F] @ c_string e)" by simp
  then show ?thesis
    unfolding level_path_def by (auto dest: in_set_takeD)
qed




lemma sort_inner_length [simp]: "length (sort_inner i j cnt files) = length files"
proof (induction i j cnt files rule: sort_inner.induct)
  case (1 i j cnt files)
  show ?case
  proof (cases "j < cnt")
    case True
    with "1.IH"[OF True] show ?thesis
      by (subst sort_inner.simps) simp
  next
    case False
    then show ?thesis
      by (subst sort_inner.simps) simp
  qed
qed

















end
